theory Spec2Isabelle
  imports Main
begin

section \<open>The catalog source and what a run leaves behind\<close>

text \<open>
  \<^verbatim>\<open>crawl.py\<close> drives an API object (\<^verbatim>\<open>PlayStore.API\<close> or \<^verbatim>\<open>FDroid.API\<close>) whose
  code is not part of the crawler. The API is therefore a parameter of every function
  below: a record of its operations over a remote state \<open>'s\<close>. A call of
  \<^verbatim>\<open>api.download(app)\<close> either returns (\<open>Success\<close>) or raises one of the three
  exceptions \<^verbatim>\<open>_download\<close> catches; these four are the outcomes of the contract the
  crawler relies on.
\<close>

datatype outcome = Success | Wait | Retry | RequestError string

text \<open>The messages handed to \<^verbatim>\<open>LOGGER\<close>, one constructor for each format string,
  with the values the string interpolates.\<close>

datatype log_line =
    Crawling string
  | Found nat nat
  | Yielded string nat
  | Discovered nat nat nat nat
  | StartedList string
  | FinishedList string nat nat nat nat
  | StartedBusy
  | FinishedBusy nat nat nat nat
  | StillBusy nat
  | Waited int
  | StartedTwice
  | FinishedTwice nat nat nat nat
  | ServerBusy int
  | SaidRetry string
  | FailedSecondTime string
  | RequestFailed string string

text \<open>
  What a run does to the outside, in order: calls of \<^verbatim>\<open>api.download\<close> with their
  outcome, calls of \<^verbatim>\<open>app_list.more()\<close> (\<open>True\<close> when a page was fetched,
  \<open>False\<close> when \<^verbatim>\<open>Maximum\<close> was raised), \<^verbatim>\<open>time.sleep\<close> and log lines.
  \<open>Skipped\<close> records the iterations of \<^verbatim>\<open>_download\<close> that take the
  \<^verbatim>\<open>continue\<close> branch, so that the trace accounts for every entry of the input.
\<close>

datatype 'a event =
    Download 'a outcome
  | Skipped 'a
  | More bool
  | Sleep int
  | Log log_line

record ('s, 'c, 'u, 'l, 'a) api =
  store :: string
  categories :: "'s \<Rightarrow> 'c list \<times> 's"
  subcategories :: "'c \<Rightarrow> 's \<Rightarrow> 'u list \<times> 's"
  discover_apps :: "'u \<Rightarrow> 's \<Rightarrow> 'l \<times> 's"
  list_more :: "'l \<Rightarrow> 's \<Rightarrow> 'l option \<times> 's"
  list_name :: "'l \<Rightarrow> string"
  list_apps :: "'l \<Rightarrow> 'a list"
  download :: "'a \<Rightarrow> 's \<Rightarrow> outcome \<times> 's"
  package_name :: "'a \<Rightarrow> string"

text \<open>
  \<open>list_more\<close> is \<^verbatim>\<open>app_list.more()\<close>: \<open>Some\<close> of the grown listing, or
  \<open>None\<close> when \<^verbatim>\<open>Maximum\<close> is raised (the listing is then as it was).
  \<open>list_apps\<close> is the iteration over a listing, \<open>list_name\<close> its \<^verbatim>\<open>name()\<close>.
\<close>

section \<open>The download driver\<close>

text \<open>
  The local variables of \<^verbatim>\<open>_download\<close>, together with the set object passed as
  \<^verbatim>\<open>downloaded\<close>, the state of the remote and the trace.
\<close>

record ('a, 's) dl_state =
  already_waited :: bool
  wait :: int
  retry_list :: "'a list"
  busy_list :: "'a list"
  local_success :: "string set"
  downloaded :: "string set"
  world :: 's
  trace :: "'a event list"

text \<open>One iteration of \<^verbatim>\<open>for app in apps\<close>; \<open>r\<close> is the parameter \<^verbatim>\<open>retry\<close>.\<close>

definition download_step ::
  "('s, 'c, 'u, 'l, 'a) api \<Rightarrow> bool \<Rightarrow> ('a, 's) dl_state \<Rightarrow> 'a \<Rightarrow> ('a, 's) dl_state" where
  "download_step api r st app =
     (let name = package_name api app in
      if name \<in> downloaded st \<or> name \<in> local_success st
      then st\<lparr>trace := trace st @ [Skipped app]\<rparr>
      else
        (let (oc, s') = download api app (world st) in
         case oc of
           Success \<Rightarrow>
             st\<lparr>local_success := insert (package_name api app) (local_success st),
                already_waited := False, wait := 30, world := s',
                trace := trace st @ [Download app Success]\<rparr>
         | Wait \<Rightarrow>
             (let w = (if already_waited st then wait st * 2 else wait st) in
              st\<lparr>busy_list := busy_list st @ [app], wait := w, already_waited := True,
                 world := s',
                 trace := trace st @ [Download app Wait, Log (ServerBusy w), Sleep w]\<rparr>)
         | Retry \<Rightarrow>
             (if r
              then st\<lparr>already_waited := False, wait := 30,
                      retry_list := retry_list st @ [app], world := s',
                      trace := trace st @
                        [Download app Retry, Log (SaidRetry (package_name api app))]\<rparr>
              else st\<lparr>already_waited := False, wait := 30, world := s',
                      trace := trace st @ [Download app Retry, Log (FailedSecondTime name)]\<rparr>)
         | RequestError e \<Rightarrow>
             st\<lparr>retry_list := retry_list st @ [app], world := s',
                trace := trace st @
                  [Download app (RequestError e),
                   Log (RequestFailed (package_name api app) e)]\<rparr>))"

text \<open>The state before the loop: lines 45 to 49.\<close>

definition dl_init :: "string set \<Rightarrow> 's \<Rightarrow> 'a event list \<Rightarrow> ('a, 's) dl_state" where
  "dl_init d s tr =
     \<lparr>already_waited = False, wait = 30, retry_list = [], busy_list = [],
      local_success = {}, downloaded = d, world = s, trace = tr\<rparr>"

text \<open>
  \<^verbatim>\<open>_download(api, apps, downloaded, retry)\<close>, started in remote state \<open>s\<close> after
  the events \<open>tr\<close>. The Python returns \<open>retry_list\<close>, \<open>busy_list\<close> and
  \<open>local_success\<close>; the model returns the whole final state, of which these are
  fields.
\<close>

definition priv_download ::
  "('s, 'c, 'u, 'l, 'a) api \<Rightarrow> 'a list \<Rightarrow> string set \<Rightarrow> bool \<Rightarrow> 's \<Rightarrow> 'a event list
     \<Rightarrow> ('a, 's) dl_state" where
  "priv_download api xs d r s tr = foldl (download_step api r) (dl_init d s tr) xs"

section \<open>Discovery\<close>

text \<open>
  The loop \<^verbatim>\<open>while ALL: try: app_list.more() except Maximum: ... break\<close>. Nothing
  bounds it but the source raising \<^verbatim>\<open>Maximum\<close>, so it is a partial function: \<open>None\<close>
  is the loop that never ends.
\<close>

partial_function (option) grow ::
  "('s, 'c, 'u, 'l, 'a) api \<Rightarrow> 'l \<Rightarrow> 's \<Rightarrow> 'a event list \<Rightarrow> ('l \<times> 's \<times> 'a event list) option"
  where
  "grow api l s tr =
     (case list_more api l s of
        (None, s') \<Rightarrow>
          Some (l, s',
            tr @ [More False, Log (Yielded (list_name api l) (length (list_apps api l)))])
      | (Some l', s') \<Rightarrow> grow api l' s' (tr @ [More True]))"

declare grow.simps [code]

text \<open>Lines 146 to 148: the subcategories of every category, in order.\<close>

fun all_subcategories ::
  "('s, 'c, 'u, 'l, 'a) api \<Rightarrow> 'c list \<Rightarrow> 'u list \<Rightarrow> 's \<Rightarrow> 'u list \<times> 's" where
  "all_subcategories api [] subs s = (subs, s)"
| "all_subcategories api (c # cs) subs s =
     (let (us, s') = subcategories api c s in all_subcategories api cs (subs @ us) s')"

text \<open>Lines 152 to 163: a listing that is empty is skipped (\<^verbatim>\<open>if not app_list\<close>: the
  listing has a length, so it is false exactly when it holds no entry), any other is
  grown until \<^verbatim>\<open>Maximum\<close>.\<close>

fun discover_lists ::
  "('s, 'c, 'u, 'l, 'a) api \<Rightarrow> 'u list \<Rightarrow> 'l list \<Rightarrow> nat \<Rightarrow> 's \<Rightarrow> 'a event list
     \<Rightarrow> ('l list \<times> nat \<times> 's \<times> 'a event list) option" where
  "discover_lists api [] app_lists app_count s tr = Some (app_lists, app_count, s, tr)"
| "discover_lists api (u # us) app_lists app_count s tr =
     (let (l, s1) = discover_apps api u s in
      if list_apps api l = [] then discover_lists api us app_lists app_count s1 tr
      else
        (case grow api l s1 tr of
           None \<Rightarrow> None
         | Some (l', s2, tr2) \<Rightarrow>
             discover_lists api us (app_lists @ [l'])
               (app_count + length (list_apps api l')) s2 tr2))"

text \<open>Lines 164 to 167: the set of package names of all listings.\<close>

definition app_set :: "('s, 'c, 'u, 'l, 'a) api \<Rightarrow> 'l list \<Rightarrow> string set" where
  "app_set api app_lists =
     foldl (\<lambda>S l. foldl (\<lambda>S app. insert (package_name api app) S) S (list_apps api l))
       {} app_lists"

definition priv_discover_apps ::
  "('s, 'c, 'u, 'l, 'a) api \<Rightarrow> 's \<Rightarrow> 'a event list \<Rightarrow> ('l list \<times> 's \<times> 'a event list) option"
  where
  "priv_discover_apps api s tr =
     (let (cats, s1) = categories api s;
          (subs, s2) = all_subcategories api cats [] s1;
          tr1 = tr @ [Log (Found (length subs) (length cats))]
      in case discover_lists api subs [] 0 s2 tr1 of
           None \<Rightarrow> None
         | Some (app_lists, app_count, s3, tr3) \<Rightarrow>
             Some (app_lists, s3,
               tr3 @ [Log (Discovered app_count (length app_lists) (length cats)
                             (card (app_set api app_lists)))]))"

section \<open>The orchestrator\<close>

text \<open>The variables \<^verbatim>\<open>retry\<close>, \<^verbatim>\<open>busy\<close> and \<^verbatim>\<open>downloaded\<close> of \<^verbatim>\<open>crawl\<close>.\<close>

record ('a, 's) crawl_state =
  retry :: "'a list"
  busy :: "'a list"
  c_downloaded :: "string set"
  c_world :: 's
  c_trace :: "'a event list"

text \<open>One iteration of the loop of lines 98 to 106.\<close>

definition listing_pass ::
  "('s, 'c, 'u, 'l, 'a) api \<Rightarrow> ('a, 's) crawl_state \<Rightarrow> 'l \<Rightarrow> ('a, 's) crawl_state" where
  "listing_pass api c app_list =
     (let res = priv_download api (list_apps api app_list) (c_downloaded c) True (c_world c)
                  (c_trace c @ [Log (StartedList (list_name api app_list))])
      in \<lparr>retry = retry c @ retry_list res,
          busy = busy c @ busy_list res,
          c_downloaded = downloaded res \<union> local_success res,
          c_world = world res,
          c_trace = trace res @
            [Log (FinishedList (list_name api app_list) (length (list_apps api app_list))
                    (card (local_success res)) (length (retry_list res))
                    (length (busy_list res)))]\<rparr>)"

text \<open>Lines 116 to 120, for \<^verbatim>\<open>range(n)\<close>: \<open>n\<close> sleeps of sixty seconds, each followed by
  its log line. The code runs it with \<open>n = 60\<close>.\<close>

definition cooldown :: "nat \<Rightarrow> 'a event list" where
  "cooldown n =
     snd (foldl (\<lambda>(total_wait, evs) i.
                   (total_wait + 1, evs @ [Sleep 60, Log (Waited (total_wait + 1))]))
            (0, []) [0..<n])"

text \<open>
  What \<^verbatim>\<open>crawl\<close> leaves behind. The Python returns nothing; the model returns the
  values its variables hold, so that they can be spoken about: the state after the loop
  over the listings, the result of the pass over \<^verbatim>\<open>busy\<close> (line 108), the result of
  the pass after the cooldown (line 122) when it is run, the values of \<^verbatim>\<open>retry\<close> and
  \<^verbatim>\<open>downloaded\<close> handed to the last call, and the result of that call (line 128).
\<close>

record ('a, 's) crawl_result =
  after_listings :: "('a, 's) crawl_state"
  busy_pass :: "('a, 's) dl_state"
  twice_pass :: "('a, 's) dl_state option"
  final_retry :: "'a list"
  final_downloaded :: "string set"
  sweep :: "('a, 's) dl_state"

text \<open>Lines 95 to 128, from the listings \<^verbatim>\<open>_discover_apps\<close> returned.\<close>

definition crawl_lists ::
  "('s, 'c, 'u, 'l, 'a) api \<Rightarrow> 'l list \<Rightarrow> 's \<Rightarrow> 'a event list \<Rightarrow> ('a, 's) crawl_result" where
  "crawl_lists api app_lists s tr =
     (let c = foldl (listing_pass api)
                \<lparr>retry = [], busy = [], c_downloaded = {}, c_world = s, c_trace = tr\<rparr>
                app_lists;
          bp = priv_download api (busy c) (c_downloaded c) True (c_world c)
                 (c_trace c @ [Log StartedBusy]);
          tr1 = trace bp @
                 [Log (FinishedBusy (length (busy c)) (card (local_success bp))
                         (length (retry_list bp)) (length (busy_list bp)))];
          d1 = downloaded bp \<union> local_success bp;
          tp = (if busy_list bp \<noteq> []
                then Some (priv_download api (busy_list bp) d1 True (world bp)
                             (tr1 @ [Log (StillBusy (length (busy_list bp)))] @ cooldown 60 @
                                [Log StartedTwice]))
                else None);
          local_retry = (case tp of None \<Rightarrow> retry_list bp | Some t \<Rightarrow> retry_list t);
          d2 = (case tp of None \<Rightarrow> d1 | Some t \<Rightarrow> downloaded t);
          s2 = (case tp of None \<Rightarrow> world bp | Some t \<Rightarrow> world t);
          tr2 = (case tp of
                   None \<Rightarrow> tr1
                 | Some t \<Rightarrow>
                     trace t @
                       [Log (FinishedTwice (length (busy_list bp)) (card (local_success t))
                               (length (retry_list t)) (length (busy_list t)))]);
          retry' = retry c @ local_retry
      in \<lparr>after_listings = c, busy_pass = bp, twice_pass = tp, final_retry = retry',
          final_downloaded = d2, sweep = priv_download api retry' d2 False s2 tr2\<rparr>)"

definition crawl ::
  "('s, 'c, 'u, 'l, 'a) api \<Rightarrow> 's \<Rightarrow> ('a, 's) crawl_result option" where
  "crawl api s =
     (case priv_discover_apps api s [Log (Crawling (store api))] of
        None \<Rightarrow> None
      | Some (app_lists, s1, tr1) \<Rightarrow> Some (crawl_lists api app_lists s1 tr1))"

section \<open>Reading a trace\<close>

text \<open>The calls of \<^verbatim>\<open>api.download\<close> in a trace, with their outcomes, in order.\<close>

definition calls :: "'a event list \<Rightarrow> ('a \<times> outcome) list" where
  "calls evs = concat (map (\<lambda>ev. case ev of Download a oc \<Rightarrow> [(a, oc)] | _ \<Rightarrow> []) evs)"

text \<open>The entries the loop of \<^verbatim>\<open>_download\<close> went through: one for each iteration.\<close>

definition entries :: "'a event list \<Rightarrow> 'a list" where
  "entries evs =
     concat (map (\<lambda>ev. case ev of Download a oc \<Rightarrow> [a] | Skipped a \<Rightarrow> [a] | _ \<Rightarrow> []) evs)"

definition sleeps :: "'a event list \<Rightarrow> int list" where
  "sleeps evs = concat (map (\<lambda>ev. case ev of Sleep n \<Rightarrow> [n] | _ \<Rightarrow> []) evs)"

definition logs :: "'a event list \<Rightarrow> log_line list" where
  "logs evs = concat (map (\<lambda>ev. case ev of Log m \<Rightarrow> [m] | _ \<Rightarrow> []) evs)"

text \<open>The events a call of \<^verbatim>\<open>_download\<close> added to the trace \<open>tr\<close> it started from.\<close>

definition emitted :: "'a event list \<Rightarrow> ('a, 's) dl_state \<Rightarrow> 'a event list" where
  "emitted tr st = drop (length tr) (trace st)"

text \<open>The entries whose download had an outcome satisfying \<open>P\<close>.\<close>

definition with_outcome :: "(outcome \<Rightarrow> bool) \<Rightarrow> 'a event list \<Rightarrow> 'a list" where
  "with_outcome P evs = map fst (filter (\<lambda>(a, oc). P oc) (calls evs))"

text \<open>The package names whose download succeeded.\<close>

definition succeeded :: "('s, 'c, 'u, 'l, 'a) api \<Rightarrow> 'a event list \<Rightarrow> string set" where
  "succeeded api evs = package_name api ` set (with_outcome (\<lambda>oc. oc = Success) evs)"

text \<open>The outcomes that put an entry on \<open>retry_list\<close> when \<^verbatim>\<open>retry\<close> is \<open>r\<close>.\<close>

fun queues :: "bool \<Rightarrow> outcome \<Rightarrow> bool" where
  "queues r Retry = r"
| "queues r (RequestError e) = True"
| "queues r oc = False"

fun is_request_error :: "outcome \<Rightarrow> bool" where
  "is_request_error (RequestError e) = True"
| "is_request_error oc = False"

text \<open>
  A trace honours a set \<open>D\<close> of package names already downloaded when every skipped
  entry has its name in \<open>D\<close> or among the names that succeeded earlier in the trace, and
  every entry that is downloaded has not.
\<close>

fun honours :: "('s, 'c, 'u, 'l, 'a) api \<Rightarrow> string set \<Rightarrow> 'a event list \<Rightarrow> bool" where
  "honours api D [] = True"
| "honours api D (Download a oc # evs) =
     (package_name api a \<notin> D \<and>
      honours api (if oc = Success then insert (package_name api a) D else D) evs)"
| "honours api D (Skipped a # evs) = (package_name api a \<in> D \<and> honours api D evs)"
| "honours api D (ev # evs) = honours api D evs"

section \<open>A scripted catalog source\<close>

text \<open>A listing of the stub: its name, the entries shown so far, the pages still to come.\<close>

type_synonym stub_list = "string \<times> string list \<times> string list list"

text \<open>
  Modelled from the spec: the code of the API classes is not in the repository's
  crawler, so runs are evaluated on a stub of the Catalog Source of section 6. Its
  catalog is a table of categories, each with its subcategories and their pages of
  entries; an entry is its package name. \<^verbatim>\<open>discover_apps\<close> shows the first page,
  \<^verbatim>\<open>more()\<close> appends the next page or raises \<^verbatim>\<open>Maximum\<close> when none is left. The
  remote state is the script of outcomes that the next calls of \<^verbatim>\<open>download\<close> will
  have; past its end every download succeeds.
\<close>

definition stub ::
  "(string \<times> (string \<times> string list list) list) list
     \<Rightarrow> (outcome list, string, string, stub_list, string) api" where
  "stub cat =
     \<lparr>store = ''stub'',
      categories = (\<lambda>s. (map fst cat, s)),
      subcategories = (\<lambda>c s. (case map_of cat c of None \<Rightarrow> [] | Some us \<Rightarrow> map fst us, s)),
      discover_apps = (\<lambda>u s.
        (case map_of (concat (map snd cat)) u of
           Some (p # ps) \<Rightarrow> (u, p, ps)
         | _ \<Rightarrow> (u, [], []), s)),
      list_more = (\<lambda>(n, shown, pending) s.
        (case pending of [] \<Rightarrow> None | p # ps \<Rightarrow> Some (n, shown @ p, ps), s)),
      list_name = fst,
      list_apps = (\<lambda>(n, shown, pending). shown),
      download = (\<lambda>a s. case s of [] \<Rightarrow> (Success, []) | oc # ocs \<Rightarrow> (oc, ocs)),
      package_name = (\<lambda>a. a)\<rparr>"

section \<open>What becomes of an entry\<close>

text \<open>
  The five things \<^verbatim>\<open>_download\<close> can do with an entry: skip it as a duplicate, download
  it, put it on \<open>busy_list\<close>, put it on \<open>retry_list\<close>, or drop it after logging that it
  failed a second time. The trace has one \<open>Download\<close> or \<open>Skipped\<close> event for each
  iteration of the loop, and that event settles which of the five it was.
\<close>

datatype fate = Duplicate | Succeeded | InBusy | InRetry | Dropped

fun fate_of :: "bool \<Rightarrow> outcome \<Rightarrow> fate" where
  "fate_of r Success = Succeeded"
| "fate_of r Wait = InBusy"
| "fate_of r Retry = (if r then InRetry else Dropped)"
| "fate_of r (RequestError e) = InRetry"

definition fates :: "bool \<Rightarrow> 'a event list \<Rightarrow> ('a \<times> fate) list" where
  "fates r evs =
     concat (map (\<lambda>ev. case ev of
                          Download a oc \<Rightarrow> [(a, fate_of r oc)]
                        | Skipped a \<Rightarrow> [(a, Duplicate)]
                        | _ \<Rightarrow> []) evs)"

definition fated :: "fate \<Rightarrow> ('a \<times> fate) list \<Rightarrow> 'a list" where
  "fated f fs = map fst (filter (\<lambda>(a, g). g = f) fs)"

text \<open>The package names logged as having failed a second time.\<close>

definition second_failures :: "'a event list \<Rightarrow> string list" where
  "second_failures evs =
     concat (map (\<lambda>m. case m of FailedSecondTime n \<Rightarrow> [n] | _ \<Rightarrow> []) (logs evs))"

section \<open>Pages of a listing\<close>

text \<open>
  The listing and the remote state after \<open>k\<close> calls of \<^verbatim>\<open>more()\<close> that each fetched a
  page; \<open>None\<close> when \<^verbatim>\<open>Maximum\<close> is raised before that.
\<close>

fun more_times ::
  "('s, 'c, 'u, 'l, 'a) api \<Rightarrow> nat \<Rightarrow> 'l \<Rightarrow> 's \<Rightarrow> ('l \<times> 's) option" where
  "more_times api 0 l s = Some (l, s)"
| "more_times api (Suc k) l s =
     (case list_more api l s of
        (None, s') \<Rightarrow> None
      | (Some l', s') \<Rightarrow> more_times api k l' s')"

text \<open>Catalogs of the stub that the examples run on.\<close>

definition one_list :: "(outcome list, string, string, stub_list, string) api" where
  "one_list = stub [(''A'', [(''a'', [[''p1'', ''p2'']])])]"

definition two_lists :: "(outcome list, string, string, stub_list, string) api" where
  "two_lists = stub [(''A'', [(''a'', [[''p'']])]), (''B'', [(''b'', [[''p'']])])]"

definition paged :: "(outcome list, string, string, stub_list, string) api" where
  "paged = stub [(''A'', [(''a'', [[''p1'', ''p2''], [''p3''], [''p4'']])])]"

section \<open>Reading a run\<close>

text \<open>The counts logged as \<^verbatim>\<open>Waited k of 60 minutes\<close>.\<close>

definition waited :: "'a event list \<Rightarrow> int list" where
  "waited evs = concat (map (\<lambda>m. case m of Waited k \<Rightarrow> [k] | _ \<Rightarrow> []) (logs evs))"

text \<open>The last pass before the final call: the one after the cooldown when there is one,
  the pass over \<^verbatim>\<open>busy\<close> otherwise.\<close>

definition last_pass :: "('a, 's) crawl_result \<Rightarrow> ('a, 's) dl_state" where
  "last_pass res = (case twice_pass res of None \<Rightarrow> busy_pass res | Some t \<Rightarrow> t)"

text \<open>The calls of \<^verbatim>\<open>api.download\<close> of a whole run of \<^verbatim>\<open>crawl\<close>, in order.\<close>

definition run_calls ::
  "('s, 'c, 'u, 'l, 'a) api \<Rightarrow> 's \<Rightarrow> ('a \<times> outcome) list option" where
  "run_calls api s = map_option (\<lambda>res. calls (trace (sweep res))) (crawl api s)"

text \<open>How many of the calls \<open>cs\<close> are for the package name \<open>x\<close>.\<close>

definition times_downloaded ::
  "('s, 'c, 'u, 'l, 'a) api \<Rightarrow> string \<Rightarrow> ('a \<times> outcome) list \<Rightarrow> nat" where
  "times_downloaded api x cs = length (filter (\<lambda>(a, oc). package_name api a = x) cs)"

text \<open>The entries for which the server was busy again in the pass after the cooldown:
  \<^verbatim>\<open>local_busy_new\<close>.\<close>

definition still_busy :: "('a, 's) crawl_result \<Rightarrow> 'a list" where
  "still_busy res = (case twice_pass res of None \<Rightarrow> [] | Some t \<Rightarrow> busy_list t)"

text \<open>The names that succeeded in the pass after the cooldown.\<close>

definition twice_success :: "('a, 's) crawl_result \<Rightarrow> string set" where
  "twice_success res = (case twice_pass res of None \<Rightarrow> {} | Some t \<Rightarrow> local_success t)"

section \<open>Traces of the driver\<close>

lemma calls_simps [simp]:
  "calls [] = []"
  "calls (evs @ evs') = calls evs @ calls evs'"
  "calls (Download a oc # evs) = (a, oc) # calls evs"
  "calls (Skipped a # evs) = calls evs"
  "calls (More b # evs) = calls evs"
  "calls (Sleep n # evs) = calls evs"
  "calls (Log m # evs) = calls evs"
  by (simp_all add: calls_def)

lemma entries_simps [simp]:
  "entries [] = []"
  "entries (evs @ evs') = entries evs @ entries evs'"
  "entries (Download a oc # evs) = a # entries evs"
  "entries (Skipped a # evs) = a # entries evs"
  "entries (More b # evs) = entries evs"
  "entries (Sleep n # evs) = entries evs"
  "entries (Log m # evs) = entries evs"
  by (simp_all add: entries_def)

lemma sleeps_simps [simp]:
  "sleeps [] = []"
  "sleeps (evs @ evs') = sleeps evs @ sleeps evs'"
  "sleeps (Download a oc # evs) = sleeps evs"
  "sleeps (Skipped a # evs) = sleeps evs"
  "sleeps (More b # evs) = sleeps evs"
  "sleeps (Sleep n # evs) = n # sleeps evs"
  "sleeps (Log m # evs) = sleeps evs"
  by (simp_all add: sleeps_def)

lemma logs_simps [simp]:
  "logs [] = []"
  "logs (evs @ evs') = logs evs @ logs evs'"
  "logs (Download a oc # evs) = logs evs"
  "logs (Skipped a # evs) = logs evs"
  "logs (More b # evs) = logs evs"
  "logs (Sleep n # evs) = logs evs"
  "logs (Log m # evs) = m # logs evs"
  by (simp_all add: logs_def)

lemma with_outcome_simps [simp]:
  "with_outcome P [] = []"
  "with_outcome P (evs @ evs') = with_outcome P evs @ with_outcome P evs'"
  "with_outcome P (Download a oc # evs) = (if P oc then a # with_outcome P evs else with_outcome P evs)"
  "with_outcome P (Skipped a # evs) = with_outcome P evs"
  "with_outcome P (More b # evs) = with_outcome P evs"
  "with_outcome P (Sleep n # evs) = with_outcome P evs"
  "with_outcome P (Log m # evs) = with_outcome P evs"
  by (simp_all add: with_outcome_def)

lemma succeeded_simps [simp]:
  "succeeded api [] = {}"
  "succeeded api (evs @ evs') = succeeded api evs \<union> succeeded api evs'"
  "succeeded api (Download a oc # evs) =
     (if oc = Success then insert (package_name api a) (succeeded api evs) else succeeded api evs)"
  "succeeded api (Skipped a # evs) = succeeded api evs"
  "succeeded api (More b # evs) = succeeded api evs"
  "succeeded api (Sleep n # evs) = succeeded api evs"
  "succeeded api (Log m # evs) = succeeded api evs"
  by (auto simp add: succeeded_def)

lemma honours_append:
  "honours api D (evs @ evs') \<longleftrightarrow> honours api D evs \<and> honours api (D \<union> succeeded api evs) evs'"
  by (induction api D evs rule: honours.induct) auto

text \<open>What one iteration adds to the trace, and how the variables move with it.\<close>

lemma download_step_frame:
  "\<exists>evs. trace (download_step api r st a) = trace st @ evs
     \<and> downloaded (download_step api r st a) = downloaded st
     \<and> entries evs = [a]
     \<and> busy_list (download_step api r st a) = busy_list st @ with_outcome (\<lambda>oc. oc = Wait) evs
     \<and> retry_list (download_step api r st a) = retry_list st @ with_outcome (queues r) evs
     \<and> local_success (download_step api r st a) = local_success st \<union> succeeded api evs
     \<and> honours api (downloaded st \<union> local_success st) evs"
  by (auto simp: download_step_def Let_def split: prod.splits outcome.splits)

lemma download_loop_frame:
  "\<exists>evs. trace (foldl (download_step api r) st xs) = trace st @ evs
     \<and> downloaded (foldl (download_step api r) st xs) = downloaded st
     \<and> entries evs = xs
     \<and> busy_list (foldl (download_step api r) st xs) = busy_list st @ with_outcome (\<lambda>oc. oc = Wait) evs
     \<and> retry_list (foldl (download_step api r) st xs) = retry_list st @ with_outcome (queues r) evs
     \<and> local_success (foldl (download_step api r) st xs) = local_success st \<union> succeeded api evs
     \<and> honours api (downloaded st \<union> local_success st) evs"
proof (induction xs rule: rev_induct)
  case Nil
  show ?case by simp
next
  case (snoc x xs)
  let ?m = "foldl (download_step api r) st xs"
  from snoc obtain evs where m:
    "trace ?m = trace st @ evs" "downloaded ?m = downloaded st" "entries evs = xs"
    "busy_list ?m = busy_list st @ with_outcome (\<lambda>oc. oc = Wait) evs"
    "retry_list ?m = retry_list st @ with_outcome (queues r) evs"
    "local_success ?m = local_success st \<union> succeeded api evs"
    "honours api (downloaded st \<union> local_success st) evs"
    by blast
  from download_step_frame [of api r ?m x] obtain e where e:
    "trace (download_step api r ?m x) = trace ?m @ e"
    "downloaded (download_step api r ?m x) = downloaded ?m"
    "entries e = [x]"
    "busy_list (download_step api r ?m x) = busy_list ?m @ with_outcome (\<lambda>oc. oc = Wait) e"
    "retry_list (download_step api r ?m x) = retry_list ?m @ with_outcome (queues r) e"
    "local_success (download_step api r ?m x) = local_success ?m \<union> succeeded api e"
    "honours api (downloaded ?m \<union> local_success ?m) e"
    by blast
  show ?case
    apply (rule exI [of _ "evs @ e"])
    using m e by (simp add: honours_append Un_assoc)
qed

lemma fates_entries: "map fst (fates r evs) = entries evs"
  by (induction evs) (auto simp: fates_def entries_def split: event.splits)

lemma fated_InBusy: "fated InBusy (fates r evs) = with_outcome (\<lambda>oc. oc = Wait) evs"
proof (induction evs)
  case Nil
  show ?case by (simp add: fates_def fated_def)
next
  case (Cons ev evs)
  have "fated InBusy (fates r (ev # evs)) = fated InBusy (fates r [ev]) @ fated InBusy (fates r evs)"
    by (simp add: fates_def fated_def)
  moreover have "fated InBusy (fates r [ev]) = with_outcome (\<lambda>oc. oc = Wait) [ev]"
  proof (cases ev)
    case (Download a oc)
    then show ?thesis by (cases oc) (simp_all add: fates_def fated_def)
  qed (simp_all add: fates_def fated_def)
  moreover have "with_outcome (\<lambda>oc. oc = Wait) (ev # evs)
      = with_outcome (\<lambda>oc. oc = Wait) [ev] @ with_outcome (\<lambda>oc. oc = Wait) evs"
    using with_outcome_simps(2) [of _ "[ev]" evs] by simp
  ultimately show ?case using Cons by simp
qed

lemma fated_InRetry: "fated InRetry (fates r evs) = with_outcome (queues r) evs"
proof (induction evs)
  case Nil
  show ?case by (simp add: fates_def fated_def)
next
  case (Cons ev evs)
  have "fated InRetry (fates r (ev # evs)) = fated InRetry (fates r [ev]) @ fated InRetry (fates r evs)"
    by (simp add: fates_def fated_def)
  moreover have "fated InRetry (fates r [ev]) = with_outcome (queues r) [ev]"
  proof (cases ev)
    case (Download a oc)
    then show ?thesis by (cases oc) (simp_all add: fates_def fated_def)
  qed (simp_all add: fates_def fated_def)
  moreover have "with_outcome (queues r) (ev # evs)
      = with_outcome (queues r) [ev] @ with_outcome (queues r) evs"
    using with_outcome_simps(2) [of _ "[ev]" evs] by simp
  ultimately show ?case using Cons by simp
qed

lemma fated_Succeeded: "fated Succeeded (fates r evs) = with_outcome (\<lambda>oc. oc = Success) evs"
proof (induction evs)
  case Nil
  show ?case by (simp add: fates_def fated_def)
next
  case (Cons ev evs)
  have "fated Succeeded (fates r (ev # evs)) = fated Succeeded (fates r [ev]) @ fated Succeeded (fates r evs)"
    by (simp add: fates_def fated_def)
  moreover have "fated Succeeded (fates r [ev]) = with_outcome (\<lambda>oc. oc = Success) [ev]"
  proof (cases ev)
    case (Download a oc)
    then show ?thesis by (cases oc) (simp_all add: fates_def fated_def)
  qed (simp_all add: fates_def fated_def)
  moreover have "with_outcome (\<lambda>oc. oc = Success) (ev # evs)
      = with_outcome (\<lambda>oc. oc = Success) [ev] @ with_outcome (\<lambda>oc. oc = Success) evs"
    using with_outcome_simps(2) [of _ "[ev]" evs] by simp
  ultimately show ?case using Cons by simp
qed

text \<open>The driver as a whole: the frame of the loop, from the initial state.\<close>

lemma priv_download_frame:
  fixes api :: "('s, 'c, 'u, 'l, 'a) api" and xs d r s tr
  defines "st \<equiv> priv_download api xs d r s tr"
  shows "trace st = tr @ emitted tr st"
    and "downloaded st = d"
    and "entries (emitted tr st) = xs"
    and "busy_list st = with_outcome (\<lambda>oc. oc = Wait) (emitted tr st)"
    and "retry_list st = with_outcome (queues r) (emitted tr st)"
    and "local_success st = succeeded api (emitted tr st)"
    and "honours api d (emitted tr st)"
proof -
  from download_loop_frame [of api r "dl_init d s tr" xs]
  obtain evs where e: "trace st = tr @ evs" "downloaded st = d" "entries evs = xs"
    "busy_list st = with_outcome (\<lambda>oc. oc = Wait) evs"
    "retry_list st = with_outcome (queues r) evs"
    "local_success st = succeeded api evs"
    "honours api d evs"
    unfolding st_def priv_download_def by (auto simp: dl_init_def)
  then have "emitted tr st = evs" by (simp add: emitted_def)
  with e show "trace st = tr @ emitted tr st" "downloaded st = d" "entries (emitted tr st) = xs"
    "busy_list st = with_outcome (\<lambda>oc. oc = Wait) (emitted tr st)"
    "retry_list st = with_outcome (queues r) (emitted tr st)"
    "local_success st = succeeded api (emitted tr st)"
    "honours api d (emitted tr st)"
    by simp_all
qed

subsection \<open>The set passed as \<open>downloaded\<close> is only read\<close>

text \<open>
  Claim C10. A call of \<^verbatim>\<open>_download\<close> never changes the set passed to it as
  \<^verbatim>\<open>downloaded\<close>: after the call it is the set it was before, whatever the entries,
  the flag and the source. The names downloaded by the call are handed back in
  \<open>local_success\<close> alone, which holds exactly the names whose download succeeded
  during the call.
\<close>

theorem download_leaves_downloaded:
  "downloaded (priv_download api xs d r s tr) = d \<and>
   local_success (priv_download api xs d r s tr) =
     succeeded api (emitted tr (priv_download api xs d r s tr))"
  using priv_download_frame(2,6) [where api = api and xs = xs and d = d and r = r and s = s and tr = tr]
  by simp

subsection \<open>Every entry has one fate\<close>

text \<open>
  Claim C6. For every input, a call of \<^verbatim>\<open>_download\<close> goes through all the entries,
  in order, and gives each of them exactly one fate: the fates of the events the call
  added to the trace are, entry for entry, the input. An entry is skipped when its name
  is in \<open>downloaded\<close> or succeeded earlier in the call, and downloaded otherwise;
  \<open>busy_list\<close> and \<open>retry_list\<close> are the entries fated so, and \<open>local_success\<close>
  is exactly the set of names of the entries whose download succeeded.
\<close>

theorem download_classifies:
  "trace (priv_download api xs d r s tr) = tr @ emitted tr (priv_download api xs d r s tr) \<and>
   map fst (fates r (emitted tr (priv_download api xs d r s tr))) = xs \<and>
   honours api d (emitted tr (priv_download api xs d r s tr)) \<and>
   busy_list (priv_download api xs d r s tr) =
     fated InBusy (fates r (emitted tr (priv_download api xs d r s tr))) \<and>
   retry_list (priv_download api xs d r s tr) =
     fated InRetry (fates r (emitted tr (priv_download api xs d r s tr))) \<and>
   local_success (priv_download api xs d r s tr) =
     package_name api ` set (fated Succeeded (fates r (emitted tr (priv_download api xs d r s tr))))"
  using priv_download_frame [where api = api and xs = xs and d = d and r = r and s = s and tr = tr]
  by (simp add: fates_entries fated_InBusy fated_InRetry fated_Succeeded succeeded_def)

lemma second_failures_simps [simp]:
  "second_failures [] = []"
  "second_failures (evs @ evs') = second_failures evs @ second_failures evs'"
  "second_failures (Download a oc # evs) = second_failures evs"
  "second_failures (Skipped a # evs) = second_failures evs"
  "second_failures (More b # evs) = second_failures evs"
  "second_failures (Sleep n # evs) = second_failures evs"
  "second_failures (Log m # evs) =
     (case m of FailedSecondTime n \<Rightarrow> n # second_failures evs | _ \<Rightarrow> second_failures evs)"
  by (simp_all add: second_failures_def split: log_line.splits)

lemma queues_False: "queues False = is_request_error"
proof
  fix oc show "queues False oc = is_request_error oc" by (cases oc) simp_all
qed

lemma download_step_failures:
  "second_failures (drop (length (trace st)) (trace (download_step api r st a))) =
     (if r then []
      else map (package_name api)
             (with_outcome (\<lambda>oc. oc = Retry)
                (drop (length (trace st)) (trace (download_step api r st a)))))"
  by (auto simp: download_step_def Let_def split: prod.splits outcome.splits)

lemma download_loop_failures:
  "second_failures (drop (length (trace st)) (trace (foldl (download_step api r) st xs))) =
     (if r then []
      else map (package_name api)
             (with_outcome (\<lambda>oc. oc = Retry)
                (drop (length (trace st)) (trace (foldl (download_step api r) st xs)))))"
proof (induction xs rule: rev_induct)
  case Nil
  show ?case by simp
next
  case (snoc x xs)
  let ?m = "foldl (download_step api r) st xs"
  from download_loop_frame [of api r st xs] obtain evs where m: "trace ?m = trace st @ evs"
    by blast
  from download_step_frame [of api r ?m x] obtain e where
    e: "trace (download_step api r ?m x) = trace ?m @ e"
    by blast
  have d: "drop (length (trace ?m)) (trace (download_step api r ?m x)) = e"
    using e by simp
  have "second_failures e =
      (if r then [] else map (package_name api) (with_outcome (\<lambda>oc. oc = Retry) e))"
    using download_step_failures [of ?m api r x] unfolding d .
  moreover have d0: "drop (length (trace st)) (trace ?m) = evs"
    using m by simp
  have "second_failures evs =
      (if r then [] else map (package_name api) (with_outcome (\<lambda>oc. oc = Retry) evs))"
    using snoc unfolding d0 .
  moreover have "drop (length (trace st)) (trace (foldl (download_step api r) st (xs @ [x])))
      = evs @ e"
    using m e by simp
  ultimately show ?case by (cases r) simp_all
qed

subsection \<open>Without retries, a retry request is dropped and a request error is queued\<close>

text \<open>
  Claim C4. In a call of \<^verbatim>\<open>_download\<close> with \<^verbatim>\<open>retry=False\<close>, whatever the entries,
  the returned \<open>retry_list\<close> is exactly the entries whose download raised
  \<^verbatim>\<open>RequestError\<close>, in order: an entry whose download raised \<^verbatim>\<open>Retry\<close> is never
  appended for it, one whose download raised \<^verbatim>\<open>RequestError\<close> always is. Each
  \<^verbatim>\<open>Retry\<close> is logged as a second failure, under the name of its entry.
\<close>

theorem no_retry_drops_retry_keeps_request_error:
  "retry_list (priv_download api xs d False s tr) =
     with_outcome is_request_error (emitted tr (priv_download api xs d False s tr)) \<and>
   second_failures (emitted tr (priv_download api xs d False s tr)) =
     map (package_name api)
       (with_outcome (\<lambda>oc. oc = Retry) (emitted tr (priv_download api xs d False s tr)))"
  using priv_download_frame(5) [where api = api and xs = xs and d = d and r = False and s = s and tr = tr]
    download_loop_failures [of "dl_init d s tr" api False xs]
  by (simp add: queues_False emitted_def priv_download_def dl_init_def)

text \<open>The branches of the loop body, one equation each.\<close>

lemma step_skip:
  "package_name api a \<in> downloaded st \<or> package_name api a \<in> local_success st \<Longrightarrow>
   download_step api r st a = st\<lparr>trace := trace st @ [Skipped a]\<rparr>"
  by (simp add: download_step_def)

lemma step_Success:
  "package_name api a \<notin> downloaded st \<Longrightarrow> package_name api a \<notin> local_success st \<Longrightarrow>
   download api a (world st) = (Success, s') \<Longrightarrow>
   download_step api r st a =
     st\<lparr>local_success := insert (package_name api a) (local_success st),
        already_waited := False, wait := 30, world := s',
        trace := trace st @ [Download a Success]\<rparr>"
  by (simp add: download_step_def)

lemma step_Wait:
  "package_name api a \<notin> downloaded st \<Longrightarrow> package_name api a \<notin> local_success st \<Longrightarrow>
   download api a (world st) = (Wait, s') \<Longrightarrow>
   download_step api r st a =
     st\<lparr>busy_list := busy_list st @ [a],
        wait := (if already_waited st then wait st * 2 else wait st),
        already_waited := True, world := s',
        trace := trace st @
          [Download a Wait,
           Log (ServerBusy (if already_waited st then wait st * 2 else wait st)),
           Sleep (if already_waited st then wait st * 2 else wait st)]\<rparr>"
  by (simp add: download_step_def Let_def)

lemma step_Retry:
  "package_name api a \<notin> downloaded st \<Longrightarrow> package_name api a \<notin> local_success st \<Longrightarrow>
   download api a (world st) = (Retry, s') \<Longrightarrow>
   download_step api r st a =
     (if r
      then st\<lparr>already_waited := False, wait := 30, retry_list := retry_list st @ [a],
              world := s',
              trace := trace st @ [Download a Retry, Log (SaidRetry (package_name api a))]\<rparr>
      else st\<lparr>already_waited := False, wait := 30, world := s',
              trace := trace st @
                [Download a Retry, Log (FailedSecondTime (package_name api a))]\<rparr>)"
  by (simp add: download_step_def)

lemma step_RequestError:
  "package_name api a \<notin> downloaded st \<Longrightarrow> package_name api a \<notin> local_success st \<Longrightarrow>
   download api a (world st) = (RequestError e, s') \<Longrightarrow>
   download_step api r st a =
     st\<lparr>retry_list := retry_list st @ [a], world := s',
        trace := trace st @
          [Download a (RequestError e), Log (RequestFailed (package_name api a) e)]\<rparr>"
  by (simp add: download_step_def)

subsection \<open>The wait on a busy server\<close>

text \<open>
  Claim C5. In a call of \<^verbatim>\<open>_download\<close> the wait starts at 30 with the flag
  \<open>already_waited\<close> clear. For an entry that is not skipped: when its download raises
  \<^verbatim>\<open>Wait\<close>, the driver sleeps for the wait it had, doubled if the flag was set, keeps
  that value and sets the flag, so that of two \<^verbatim>\<open>Wait\<close> outcomes in a row the second
  sleeps twice as long as the first, from whatever state; when its download succeeds or
  raises \<^verbatim>\<open>Retry\<close>, the wait is 30 again and the flag is clear, and the driver does not
  sleep.
\<close>

theorem backoff_doubles_and_resets:
  assumes a: "package_name api a \<notin> downloaded st" "package_name api a \<notin> local_success st"
    and b: "package_name api b \<notin> downloaded st" "package_name api b \<notin> local_success st"
  shows "wait (dl_init d s tr) = 30 \<and> \<not> already_waited (dl_init d s tr) \<and>
    (fst (download api a (world st)) = Wait \<longrightarrow>
       wait (download_step api r st a) = (if already_waited st then wait st * 2 else wait st) \<and>
       already_waited (download_step api r st a) \<and>
       sleeps (drop (length (trace st)) (trace (download_step api r st a))) =
         [wait (download_step api r st a)]) \<and>
    (fst (download api a (world st)) = Wait \<and>
     fst (download api b (world (download_step api r st a))) = Wait \<longrightarrow>
       sleeps (drop (length (trace st)) (trace (foldl (download_step api r) st [a, b]))) =
         [wait (download_step api r st a), 2 * wait (download_step api r st a)]) \<and>
    (fst (download api a (world st)) = Success \<or> fst (download api a (world st)) = Retry \<longrightarrow>
       wait (download_step api r st a) = 30 \<and> \<not> already_waited (download_step api r st a) \<and>
       sleeps (drop (length (trace st)) (trace (download_step api r st a))) = [])"
proof -
  obtain oc s' where dl: "download api a (world st) = (oc, s')"
    by (cases "download api a (world st)")
  have init: "wait (dl_init d s tr) = 30 \<and> \<not> already_waited (dl_init d s tr)"
    by (simp add: dl_init_def)
  have one: "wait (download_step api r st a) = (if already_waited st then wait st * 2 else wait st) \<and>
       already_waited (download_step api r st a) \<and>
       sleeps (drop (length (trace st)) (trace (download_step api r st a))) =
         [wait (download_step api r st a)]" if "oc = Wait"
    using that dl by (simp add: step_Wait [OF a])
  have two: "sleeps (drop (length (trace st)) (trace (foldl (download_step api r) st [a, b]))) =
         [wait (download_step api r st a), 2 * wait (download_step api r st a)]"
    if w: "oc = Wait" and w2: "fst (download api b (world (download_step api r st a))) = Wait"
  proof -
    define m where "m = download_step api r st a"
    have m: "m = st\<lparr>busy_list := busy_list st @ [a],
        wait := (if already_waited st then wait st * 2 else wait st),
        already_waited := True, world := s',
        trace := trace st @
          [Download a Wait,
           Log (ServerBusy (if already_waited st then wait st * 2 else wait st)),
           Sleep (if already_waited st then wait st * 2 else wait st)]\<rparr>"
      unfolding m_def using w dl by (simp add: step_Wait [OF a])
    have tm: "trace m = trace st @ [Download a Wait, Log (ServerBusy (wait m)), Sleep (wait m)]"
      and am: "already_waited m"
      and bm: "package_name api b \<notin> downloaded m" "package_name api b \<notin> local_success m"
      using b by (simp_all add: m)
    have "fst (download api b (world m)) = Wait"
      using w2 by (simp add: m_def)
    then obtain s'' where dl2: "download api b (world m) = (Wait, s'')"
      by (metis prod.collapse)
    have "trace (download_step api r m b) =
        trace m @ [Download b Wait, Log (ServerBusy (wait m * 2)), Sleep (wait m * 2)]"
      using step_Wait [OF bm dl2, of r] am by simp
    then have "sleeps (drop (length (trace st)) (trace (download_step api r m b))) =
        [wait m, 2 * wait m]"
      using tm by simp
    then show ?thesis by (simp add: m_def)
  qed
  have reset: "wait (download_step api r st a) = 30 \<and> \<not> already_waited (download_step api r st a) \<and>
       sleeps (drop (length (trace st)) (trace (download_step api r st a))) = []"
    if "oc = Success \<or> oc = Retry"
    using that dl by (cases r) (auto simp: step_Success [OF a] step_Retry [OF a])
  from init one two reset dl show ?thesis by simp
qed

theorem backoff_doubles_and_resets_witness:
  "package_name (stub []) ''p'' \<notin> downloaded (dl_init {} [Wait, Wait] ([] :: string event list)) \<and>
   fst (download (stub []) ''p'' (world (dl_init {} [Wait, Wait] ([] :: string event list)))) = Wait \<and>
   fst (download (stub []) ''q''
          (world (download_step (stub []) True (dl_init {} [Wait, Wait] []) ''p''))) = Wait \<and>
   sleeps (trace (foldl (download_step (stub []) True) (dl_init {} [Wait, Wait] [])
                    [''p'', ''q''])) = [30, 60]"
proof -
  let ?st = "dl_init {} [Wait, Wait] ([] :: string event list)"
  have h: "package_name (stub []) ''p'' \<notin> downloaded ?st"
    "package_name (stub []) ''p'' \<notin> local_success ?st"
    "package_name (stub []) ''q'' \<notin> downloaded ?st"
    "package_name (stub []) ''q'' \<notin> local_success ?st"
    by (simp_all add: dl_init_def)
  have w1: "fst (download (stub []) ''p'' (world ?st)) = Wait"
    by (simp add: stub_def dl_init_def)
  have w2: "fst (download (stub []) ''q'' (world (download_step (stub []) True ?st ''p''))) = Wait"
    by (simp add: stub_def dl_init_def download_step_def)
  from backoff_doubles_and_resets [OF h, where r = True and d = "{}" and s = "[]" and tr = "[]"]
    w1 w2
  have "wait (download_step (stub []) True ?st ''p'') = 30"
    and "sleeps (drop (length (trace ?st))
           (trace (foldl (download_step (stub []) True) ?st [''p'', ''q'']))) =
         [wait (download_step (stub []) True ?st ''p''),
          2 * wait (download_step (stub []) True ?st ''p'')]"
    by (simp_all add: dl_init_def)
  then have "sleeps (trace (foldl (download_step (stub []) True) ?st [''p'', ''q''])) = [30, 60]"
    by (simp add: dl_init_def)
  with h(1) w1 w2 show ?thesis by simp
qed

text \<open>
  Claim C9. For an entry that is not skipped and whose download raises
  \<^verbatim>\<open>RequestError\<close>, the wait and the flag \<open>already_waited\<close> are after the iteration
  what they were before it, and the driver does not sleep. So when three entries in a
  row have the outcomes \<^verbatim>\<open>Wait\<close>, \<^verbatim>\<open>RequestError\<close>, \<^verbatim>\<open>Wait\<close>, the second sleep is
  twice the first, although an outcome that is not \<^verbatim>\<open>Wait\<close> came between.
\<close>

theorem request_error_keeps_backoff:
  assumes a: "package_name api a \<notin> downloaded st" "package_name api a \<notin> local_success st"
    and b: "package_name api b \<notin> downloaded st" "package_name api b \<notin> local_success st"
    and c: "package_name api c \<notin> downloaded st" "package_name api c \<notin> local_success st"
  shows
   "(fst (download api b (world st)) = RequestError e \<longrightarrow>
       wait (download_step api r st b) = wait st \<and>
       already_waited (download_step api r st b) = already_waited st \<and>
       sleeps (drop (length (trace st)) (trace (download_step api r st b))) = []) \<and>
    (fst (download api a (world st)) = Wait \<and>
     fst (download api b (world (download_step api r st a))) = RequestError e \<and>
     fst (download api c (world (foldl (download_step api r) st [a, b]))) = Wait \<longrightarrow>
       sleeps (drop (length (trace st)) (trace (foldl (download_step api r) st [a, b, c]))) =
         [wait (download_step api r st a), 2 * wait (download_step api r st a)])"
proof -
  have one: "wait (download_step api r st b) = wait st \<and>
       already_waited (download_step api r st b) = already_waited st \<and>
       sleeps (drop (length (trace st)) (trace (download_step api r st b))) = []"
    if re: "fst (download api b (world st)) = RequestError e"
  proof -
    obtain s' where "download api b (world st) = (RequestError e, s')"
      using re by (metis prod.collapse)
    then show ?thesis by (simp add: step_RequestError [OF b])
  qed
  have three: "sleeps (drop (length (trace st)) (trace (foldl (download_step api r) st [a, b, c]))) =
         [wait (download_step api r st a), 2 * wait (download_step api r st a)]"
    if w1: "fst (download api a (world st)) = Wait"
      and e2: "fst (download api b (world (download_step api r st a))) = RequestError e"
      and w3: "fst (download api c (world (foldl (download_step api r) st [a, b]))) = Wait"
  proof -
    define m where "m = download_step api r st a"
    define n where "n = download_step api r m b"
    obtain s1 where dl1: "download api a (world st) = (Wait, s1)"
      using w1 by (metis prod.collapse)
    have m: "m = st\<lparr>busy_list := busy_list st @ [a],
        wait := (if already_waited st then wait st * 2 else wait st),
        already_waited := True, world := s1,
        trace := trace st @
          [Download a Wait,
           Log (ServerBusy (if already_waited st then wait st * 2 else wait st)),
           Sleep (if already_waited st then wait st * 2 else wait st)]\<rparr>"
      unfolding m_def by (rule step_Wait [OF a dl1])
    have tm: "trace m = trace st @ [Download a Wait, Log (ServerBusy (wait m)), Sleep (wait m)]"
      and am: "already_waited m"
      and bm: "package_name api b \<notin> downloaded m" "package_name api b \<notin> local_success m"
      and cm: "package_name api c \<notin> downloaded m" "package_name api c \<notin> local_success m"
      using b c by (simp_all add: m)
    have "fst (download api b (world m)) = RequestError e"
      using e2 by (simp add: m_def)
    then obtain s2 where dl2: "download api b (world m) = (RequestError e, s2)"
      by (metis prod.collapse)
    have n: "n = m\<lparr>retry_list := retry_list m @ [b], world := s2,
        trace := trace m @
          [Download b (RequestError e), Log (RequestFailed (package_name api b) e)]\<rparr>"
      unfolding n_def by (rule step_RequestError [OF bm dl2])
    have wn: "wait n = wait m" "already_waited n"
      and tn: "trace n = trace m @
          [Download b (RequestError e), Log (RequestFailed (package_name api b) e)]"
      and cn: "package_name api c \<notin> downloaded n" "package_name api c \<notin> local_success n"
      using am cm by (simp_all add: n)
    have "fst (download api c (world n)) = Wait"
      using w3 by (simp add: n_def m_def)
    then obtain s3 where dl3: "download api c (world n) = (Wait, s3)"
      by (metis prod.collapse)
    have "trace (download_step api r n c) =
        trace n @ [Download c Wait, Log (ServerBusy (wait m * 2)), Sleep (wait m * 2)]"
      using step_Wait [OF cn dl3, of r] wn by simp
    then have "sleeps (drop (length (trace st)) (trace (download_step api r n c))) =
        [wait m, 2 * wait m]"
      using tn tm by simp
    then show ?thesis by (simp add: n_def m_def)
  qed
  from one three show ?thesis by blast
qed


theorem request_error_keeps_backoff_witness:
  "package_name (stub []) ''p'' \<notin>
     downloaded (dl_init {} [Wait, RequestError ''e'', Wait] ([] :: string event list)) \<and>
   fst (download (stub []) ''p'' [Wait, RequestError ''e'', Wait]) = Wait \<and>
   fst (download (stub []) ''q'' [RequestError ''e'', Wait]) = RequestError ''e'' \<and>
   fst (download (stub []) ''r'' [Wait]) = Wait \<and>
   sleeps (trace (foldl (download_step (stub []) True)
                    (dl_init {} [Wait, RequestError ''e'', Wait] [])
                    [''p'', ''q'', ''r''])) = [30, 60]"
proof -
  let ?st = "dl_init {} [Wait, RequestError ''e'', Wait] ([] :: string event list)"
  have h: "package_name (stub []) ''p'' \<notin> downloaded ?st"
    "package_name (stub []) ''p'' \<notin> local_success ?st"
    "package_name (stub []) ''q'' \<notin> downloaded ?st"
    "package_name (stub []) ''q'' \<notin> local_success ?st"
    "package_name (stub []) ''r'' \<notin> downloaded ?st"
    "package_name (stub []) ''r'' \<notin> local_success ?st"
    by (simp_all add: dl_init_def)
  have w1: "fst (download (stub []) ''p'' (world ?st)) = Wait"
    by (simp add: stub_def dl_init_def)
  have w2: "fst (download (stub []) ''q'' (world (download_step (stub []) True ?st ''p'')))
      = RequestError ''e''"
    by (simp add: stub_def dl_init_def download_step_def)
  have w3: "fst (download (stub []) ''r''
      (world (foldl (download_step (stub []) True) ?st [''p'', ''q'']))) = Wait"
    by (simp add: stub_def dl_init_def download_step_def)
  have w: "wait (download_step (stub []) True ?st ''p'') = 30"
    by (simp add: stub_def dl_init_def download_step_def)
  from request_error_keeps_backoff [OF h, where r = True and e = "''e''"] w1 w2 w3
  have "sleeps (drop (length (trace ?st))
           (trace (foldl (download_step (stub []) True) ?st [''p'', ''q'', ''r'']))) =
         [wait (download_step (stub []) True ?st ''p''),
          2 * wait (download_step (stub []) True ?st ''p'')]"
    by blast
  then have "sleeps (trace (foldl (download_step (stub []) True) ?st [''p'', ''q'', ''r'']))
      = [30, 60]"
    unfolding w by (simp add: dl_init_def)
  moreover have "fst (download (stub []) ''p'' [Wait, RequestError ''e'', Wait]) = Wait"
    "fst (download (stub []) ''q'' [RequestError ''e'', Wait]) = RequestError ''e''"
    "fst (download (stub []) ''r'' [Wait]) = Wait"
    by (simp_all add: stub_def)
  ultimately show ?thesis using h(1) by simp
qed

section \<open>Growing a listing\<close>

lemma grow_more_times:
  "more_times api k l s = Some (lk, sk) \<Longrightarrow> list_more api lk sk = (None, s') \<Longrightarrow>
   grow api l s tr =
     Some (lk, s',
       tr @ replicate k (More True) @
         [More False, Log (Yielded (list_name api lk) (length (list_apps api lk)))])"
proof (induction k arbitrary: l s tr)
  case 0
  then show ?case by (subst grow.simps) simp
next
  case (Suc k)
  from Suc.prems(1) obtain l1 s1 where
    m: "list_more api l s = (Some l1, s1)" and r: "more_times api k l1 s1 = Some (lk, sk)"
    by (auto split: prod.splits option.splits)
  have "grow api l s tr = grow api l1 s1 (tr @ [More True])"
    by (subst grow.simps) (simp add: m)
  also have "\<dots> = Some (lk, s',
       (tr @ [More True]) @ replicate k (More True) @
         [More False, Log (Yielded (list_name api lk) (length (list_apps api lk)))])"
    by (rule Suc.IH [OF r Suc.prems(2)])
  finally show ?case by (simp add: replicate_app_Cons_same)
qed

text \<open>
  Claim C8. Whenever the source is such that \<open>k\<close> calls of \<^verbatim>\<open>more()\<close> on a listing each
  fetch a page and the call after them raises \<^verbatim>\<open>Maximum\<close>, the loop that grows the
  listing in \<^verbatim>\<open>_discover_apps\<close> ends; the listing it leaves is the one those \<open>k\<close>
  calls produced, so it holds the entries the listing had before the loop and those of
  the \<open>k\<close> pages, and nothing else; and the loop called \<^verbatim>\<open>more()\<close> exactly
  \<open>k + 1\<close> times, the last call being the one that raised: no call follows it.
\<close>

theorem grow_to_exhaustion:
  assumes "more_times api k l s = Some (lk, sk)" and "fst (list_more api lk sk) = None"
  shows "grow api l s tr =
     Some (lk, snd (list_more api lk sk),
       tr @ replicate k (More True) @
         [More False, Log (Yielded (list_name api lk) (length (list_apps api lk)))])"
  using grow_more_times [OF assms(1), of "snd (list_more api lk sk)" tr] assms(2)
  by (metis prod.collapse)

section \<open>The stub\<close>

lemma stub_simps [simp]:
  "store (stub cat) = ''stub''"
  "categories (stub cat) s = (map fst cat, s)"
  "subcategories (stub cat) c s = (case map_of cat c of None \<Rightarrow> [] | Some us \<Rightarrow> map fst us, s)"
  "discover_apps (stub cat) u s =
     (case map_of (concat (map snd cat)) u of
        Some (p # ps) \<Rightarrow> (u, p, ps)
      | _ \<Rightarrow> (u, [], []), s)"
  "list_more (stub cat) (n, shown, pending) s =
     (case pending of [] \<Rightarrow> None | p # ps \<Rightarrow> Some (n, shown @ p, ps), s)"
  "list_name (stub cat) (n, shown, pending) = n"
  "list_apps (stub cat) (n, shown, pending) = shown"
  "download (stub cat) a [] = (Success, [])"
  "download (stub cat) a (oc # ocs) = (oc, ocs)"
  "package_name (stub cat) a = a"
  by (simp_all add: stub_def)

lemma stub_more_times:
  "more_times (stub cat) (length pending) (n, shown, pending) s =
     Some ((n, shown @ concat pending, []), s)"
  by (induction pending arbitrary: shown) simp_all

lemma stub_grow:
  "grow (stub cat) (n, shown, pending) s tr =
     Some ((n, shown @ concat pending, []), s,
       tr @ replicate (length pending) (More True) @
         [More False, Log (Yielded n (length (shown @ concat pending)))])"
  using grow_more_times [OF stub_more_times [of cat pending n shown s], where s' = s and tr = tr]
  by simp

theorem grow_to_exhaustion_witness:
  "more_times paged 2 (''a'', [''p1'', ''p2''], [[''p3''], [''p4'']]) [] =
     Some ((''a'', [''p1'', ''p2'', ''p3'', ''p4''], []), []) \<and>
   fst (list_more paged (''a'', [''p1'', ''p2'', ''p3'', ''p4''], []) []) = None \<and>
   grow paged (''a'', [''p1'', ''p2''], [[''p3''], [''p4'']]) [] ([] :: string event list) =
     Some ((''a'', [''p1'', ''p2'', ''p3'', ''p4''], []), [],
       [More True, More True, More False, Log (Yielded ''a'' 4)])"
proof -
  have m: "more_times paged 2 (''a'', [''p1'', ''p2''], [[''p3''], [''p4'']]) [] =
     Some ((''a'', [''p1'', ''p2'', ''p3'', ''p4''], []), [])"
    unfolding paged_def by (simp add: numeral_2_eq_2)
  have e: "fst (list_more paged (''a'', [''p1'', ''p2'', ''p3'', ''p4''], []) []) = None"
    by (simp add: paged_def)
  from grow_to_exhaustion [OF m e, of "[]"] m e show ?thesis
    by (simp add: paged_def numeral_2_eq_2)
qed

lemma discover_one_list:
  "priv_discover_apps one_list s tr =
     Some ([(''a'', [''p1'', ''p2''], [])], s,
       tr @ [Log (Found 1 1), More False, Log (Yielded ''a'' 2), Log (Discovered 2 1 1 2)])"
  by (simp add: priv_discover_apps_def one_list_def stub_grow app_set_def)

lemma discover_two_lists:
  "priv_discover_apps two_lists s tr =
     Some ([(''a'', [''p''], []), (''b'', [''p''], [])], s,
       tr @ [Log (Found 2 2), More False, Log (Yielded ''a'' 1), More False,
             Log (Yielded ''b'' 1), Log (Discovered 2 2 2 1)])"
  by (simp add: priv_discover_apps_def two_lists_def stub_grow app_set_def)

section \<open>The cooldown\<close>

lemma cooldown_count:
  "fst (foldl (\<lambda>(total_wait, evs) i.
          (total_wait + 1, evs @ [Sleep 60, Log (Waited (total_wait + 1))]))
        (0, []) [0..<n]) = int n"
  by (induction n) (simp_all add: case_prod_unfold)

lemma cooldown_0: "cooldown 0 = []"
  by (simp add: cooldown_def)

lemma cooldown_Suc: "cooldown (Suc n) = cooldown n @ [Sleep 60, Log (Waited (int n + 1))]"
  using cooldown_count [of n] by (simp add: cooldown_def case_prod_unfold)

lemma cooldown_eq:
  "cooldown n = concat (map (\<lambda>k. [Sleep 60, Log (Waited (int k))]) [1..<Suc n])"
proof (induction n)
  case 0
  show ?case by (simp add: cooldown_0)
next
  case (Suc n)
  have "[1..<Suc (Suc n)] = [1..<Suc n] @ [Suc n]" by simp
  then show ?case using Suc by (simp only: cooldown_Suc map_append concat_append) simp
qed

lemma waited_simps [simp]:
  "waited [] = []"
  "waited (evs @ evs') = waited evs @ waited evs'"
  "waited (Download a oc # evs) = waited evs"
  "waited (Skipped a # evs) = waited evs"
  "waited (More b # evs) = waited evs"
  "waited (Sleep n # evs) = waited evs"
  "waited (Log m # evs) = (case m of Waited k \<Rightarrow> k # waited evs | _ \<Rightarrow> waited evs)"
  by (simp_all add: waited_def split: log_line.splits)

lemma cooldown_reads [simp]:
  "entries (cooldown n) = []"
  "calls (cooldown n) = []"
  "waited (cooldown n) = map int [1..<Suc n]"
  by (induction n) (simp_all add: cooldown_0 cooldown_Suc)

text \<open>Events that are no iteration of the driver's loop.\<close>

lemma no_entries_calls: "entries evs = [] \<Longrightarrow> calls evs = []"
  by (induction evs) (auto simp: entries_def calls_def split: event.splits)

lemma no_calls_with_outcome: "calls evs = [] \<Longrightarrow> with_outcome P evs = []"
  by (simp add: with_outcome_def)

lemma no_calls_succeeded: "calls evs = [] \<Longrightarrow> succeeded api evs = {}"
  by (simp add: succeeded_def with_outcome_def)

lemma no_entries_honours: "entries evs = [] \<Longrightarrow> honours api D evs"
proof (induction evs)
  case Nil
  show ?case by simp
next
  case (Cons ev evs)
  then show ?case by (cases ev) simp_all
qed

lemma honours_calls:
  "honours api D evs \<Longrightarrow> (b, oc) \<in> set (calls evs) \<Longrightarrow> package_name api b \<notin> D"
proof (induction api D evs rule: honours.induct)
  case (2 api D a oc' evs)
  then show ?case by (auto split: if_splits)
qed simp_all

section \<open>Traces of discovery\<close>

lemma grow_trace:
  fixes api :: "('s, 'c, 'u, 'l, 'a) api"
  assumes "grow api l s tr = Some y"
  shows "\<exists>evs. snd (snd y) = tr @ evs \<and> entries evs = []"
proof (rule grow.raw_induct
    [where P = "\<lambda>api l s tr y. \<exists>evs. snd (snd y) = tr @ evs \<and> entries evs = []", OF _ assms])
  fix g and api :: "('s, 'c, 'u, 'l, 'a) api" and l s and tr :: "'a event list"
    and y :: "'l \<times> 's \<times> 'a event list"
  assume IH: "\<And>api l s tr y. g api l s tr = Some y \<Longrightarrow>
      \<exists>evs. snd (snd y) = tr @ evs \<and> entries evs = []"
    and step: "(case list_more api l s of
        (None, s') \<Rightarrow>
          Some (l, s',
            tr @ [More False, Log (Yielded (list_name api l) (length (list_apps api l)))])
      | (Some l', s') \<Rightarrow> g api l' s' (tr @ [More True])) = Some y"
  show "\<exists>evs. snd (snd y) = tr @ evs \<and> entries evs = []"
  proof (cases "list_more api l s")
    case (Pair o1 s1)
    show ?thesis
    proof (cases o1)
      case None
      with Pair step show ?thesis by auto
    next
      case (Some l1)
      with Pair step have "g api l1 s1 (tr @ [More True]) = Some y" by simp
      from IH [OF this] obtain evs where
        "snd (snd y) = (tr @ [More True]) @ evs" "entries evs = []"
        by blast
      then have "snd (snd y) = tr @ (More True # evs) \<and> entries (More True # evs) = []"
        by simp
      then show ?thesis by blast
    qed
  qed
qed

lemma discover_lists_trace:
  "discover_lists api us app_lists app_count s tr = Some (ls, n, s', tr') \<Longrightarrow>
   \<exists>evs. tr' = tr @ evs \<and> entries evs = []"
proof (induction us arbitrary: app_lists app_count s tr)
  case Nil
  then show ?case by simp
next
  case (Cons u us)
  obtain l s1 where d: "discover_apps api u s = (l, s1)"
    by (cases "discover_apps api u s")
  show ?case
  proof (cases "list_apps api l = []")
    case True
    with Cons.prems d have "discover_lists api us app_lists app_count s1 tr = Some (ls, n, s', tr')"
      by simp
    then show ?thesis by (rule Cons.IH)
  next
    case False
    with Cons.prems d obtain l1 s2 tr2 where g: "grow api l s1 tr = Some (l1, s2, tr2)"
      and r: "discover_lists api us (app_lists @ [l1])
                (app_count + length (list_apps api l1)) s2 tr2 = Some (ls, n, s', tr')"
      by (auto split: option.splits)
    from grow_trace [OF g] obtain e1 where e1: "tr2 = tr @ e1" "entries e1 = []"
      by auto
    from Cons.IH [OF r] obtain e2 where e2: "tr' = tr2 @ e2" "entries e2 = []"
      by blast
    from e1 e2 have "tr' = tr @ (e1 @ e2) \<and> entries (e1 @ e2) = []" by simp
    then show ?thesis by blast
  qed
qed

lemma priv_discover_apps_trace:
  assumes "priv_discover_apps api s tr = Some (ls, s', tr')"
  shows "\<exists>evs. tr' = tr @ evs \<and> entries evs = []"
proof -
  obtain cats s1 where c: "categories api s = (cats, s1)"
    by (cases "categories api s")
  obtain subs s2 where u: "all_subcategories api cats [] s1 = (subs, s2)"
    by (cases "all_subcategories api cats [] s1")
  from assms c u obtain n s3 tr3 where
    d: "discover_lists api subs [] 0 s2 (tr @ [Log (Found (length subs) (length cats))])
          = Some (ls, n, s3, tr3)"
    and t: "tr' = tr3 @ [Log (Discovered n (length ls) (length cats) (card (app_set api ls)))]"
    by (auto simp: priv_discover_apps_def split: option.splits)
  from discover_lists_trace [OF d] obtain e where
    e: "tr3 = (tr @ [Log (Found (length subs) (length cats))]) @ e" "entries e = []"
    by blast
  let ?evs = "Log (Found (length subs) (length cats)) # e @
    [Log (Discovered n (length ls) (length cats) (card (app_set api ls)))]"
  from e t have "tr' = tr @ ?evs \<and> entries ?evs = []" by simp
  then show ?thesis by blast
qed

section \<open>Traces of the orchestrator\<close>

lemma listing_pass_frame:
  "\<exists>evs. c_trace (listing_pass api c l) = c_trace c @ evs
     \<and> retry (listing_pass api c l) = retry c @ with_outcome (queues True) evs
     \<and> busy (listing_pass api c l) = busy c @ with_outcome (\<lambda>oc. oc = Wait) evs
     \<and> c_downloaded (listing_pass api c l) = c_downloaded c \<union> succeeded api evs
     \<and> honours api (c_downloaded c) evs"
proof -
  let ?tr = "c_trace c @ [Log (StartedList (list_name api l))]"
  let ?st = "priv_download api (list_apps api l) (c_downloaded c) True (c_world c) ?tr"
  let ?fin = "Log (FinishedList (list_name api l) (length (list_apps api l))
                    (card (local_success ?st)) (length (retry_list ?st))
                    (length (busy_list ?st)))"
  let ?evs = "Log (StartedList (list_name api l)) # emitted ?tr ?st @ [?fin]"
  note f = priv_download_frame [where api = api and xs = "list_apps api l"
      and d = "c_downloaded c" and r = True and s = "c_world c" and tr = ?tr]
  have "c_trace (listing_pass api c l) = trace ?st @ [?fin]"
    by (simp add: listing_pass_def Let_def)
  also have "\<dots> = c_trace c @ ?evs"
    by (subst f(1)) simp
  finally have 1: "c_trace (listing_pass api c l) = c_trace c @ ?evs" .
  have 2: "retry (listing_pass api c l) = retry c @ with_outcome (queues True) ?evs"
    using f(5) by (simp add: listing_pass_def Let_def)
  have 3: "busy (listing_pass api c l) = busy c @ with_outcome (\<lambda>oc. oc = Wait) ?evs"
    using f(4) by (simp add: listing_pass_def Let_def)
  have 4: "c_downloaded (listing_pass api c l) = c_downloaded c \<union> succeeded api ?evs"
    using f(2,6) by (simp add: listing_pass_def Let_def)
  have 5: "honours api (c_downloaded c) ?evs"
    using f(7) by (simp add: honours_append)
  from 1 2 3 4 5 show ?thesis by blast
qed

lemma listing_loop_frame:
  "\<exists>evs. c_trace (foldl (listing_pass api) c ls) = c_trace c @ evs
     \<and> retry (foldl (listing_pass api) c ls) = retry c @ with_outcome (queues True) evs
     \<and> busy (foldl (listing_pass api) c ls) = busy c @ with_outcome (\<lambda>oc. oc = Wait) evs
     \<and> c_downloaded (foldl (listing_pass api) c ls) = c_downloaded c \<union> succeeded api evs
     \<and> honours api (c_downloaded c) evs"
proof (induction ls rule: rev_induct)
  case Nil
  show ?case by simp
next
  case (snoc l ls)
  let ?m = "foldl (listing_pass api) c ls"
  from snoc obtain evs where m:
    "c_trace ?m = c_trace c @ evs"
    "retry ?m = retry c @ with_outcome (queues True) evs"
    "busy ?m = busy c @ with_outcome (\<lambda>oc. oc = Wait) evs"
    "c_downloaded ?m = c_downloaded c \<union> succeeded api evs"
    "honours api (c_downloaded c) evs"
    by blast
  from listing_pass_frame [of api ?m l] obtain e where e:
    "c_trace (listing_pass api ?m l) = c_trace ?m @ e"
    "retry (listing_pass api ?m l) = retry ?m @ with_outcome (queues True) e"
    "busy (listing_pass api ?m l) = busy ?m @ with_outcome (\<lambda>oc. oc = Wait) e"
    "c_downloaded (listing_pass api ?m l) = c_downloaded ?m \<union> succeeded api e"
    "honours api (c_downloaded ?m) e"
    by blast
  show ?case
    apply (rule exI [of _ "evs @ e"])
    using m e by (simp add: honours_append Un_assoc)
qed

lemma driver_waited_step:
  "waited (drop (length (trace st)) (trace (download_step api r st a))) = []"
  by (auto simp: download_step_def Let_def split: prod.splits outcome.splits)

lemma driver_waited_loop:
  "waited (drop (length (trace st)) (trace (foldl (download_step api r) st xs))) = []"
proof (induction xs rule: rev_induct)
  case Nil
  show ?case by simp
next
  case (snoc x xs)
  let ?m = "foldl (download_step api r) st xs"
  from download_loop_frame [of api r st xs] obtain evs where m: "trace ?m = trace st @ evs"
    by blast
  from download_step_frame [of api r ?m x] obtain e where
    e: "trace (download_step api r ?m x) = trace ?m @ e"
    by blast
  have "waited e = []"
    using driver_waited_step [of ?m api r x] e by simp
  moreover have "waited evs = []"
    using snoc m by simp
  ultimately show ?case using m e by simp
qed

lemma driver_waited: "waited (emitted tr (priv_download api xs d r s tr)) = []"
  using driver_waited_loop [of "dl_init d s tr" api r xs]
  by (simp add: emitted_def priv_download_def dl_init_def)

text \<open>The parts of a run, read off the definition.\<close>

lemma crawl_lists_parts:
  fixes api :: "('s, 'c, 'u, 'l, 'a) api" and ls s tr
  defines "res \<equiv> crawl_lists api ls s tr"
  defines "c \<equiv> after_listings res" and "bp \<equiv> busy_pass res"
  shows "c = foldl (listing_pass api)
               \<lparr>retry = [], busy = [], c_downloaded = {}, c_world = s, c_trace = tr\<rparr> ls"
    and "bp = priv_download api (busy c) (c_downloaded c) True (c_world c)
               (c_trace c @ [Log StartedBusy])"
    and "twice_pass res =
           (if busy_list bp = [] then None
            else Some (priv_download api (busy_list bp) (downloaded bp \<union> local_success bp) True
                   (world bp)
                   (trace bp @
                    [Log (FinishedBusy (length (busy c)) (card (local_success bp))
                            (length (retry_list bp)) (length (busy_list bp))),
                     Log (StillBusy (length (busy_list bp)))] @ cooldown 60 @
                    [Log StartedTwice])))"
    and "final_retry res = retry c @ retry_list (last_pass res)"
    and "final_downloaded res = downloaded bp \<union> local_success bp"
    and "sweep res =
           priv_download api (final_retry res) (final_downloaded res) False
             (world (last_pass res))
             (case twice_pass res of
                None \<Rightarrow>
                  trace bp @
                    [Log (FinishedBusy (length (busy c)) (card (local_success bp))
                            (length (retry_list bp)) (length (busy_list bp)))]
              | Some t \<Rightarrow>
                  trace t @
                    [Log (FinishedTwice (length (busy_list bp)) (card (local_success t))
                            (length (retry_list t)) (length (busy_list t)))])"
  unfolding res_def c_def bp_def
  by (simp_all add: crawl_lists_def Let_def last_pass_def priv_download_frame(2))


lemma crawl_lists_frame:
  fixes api :: "('s, 'c, 'u, 'l, 'a) api" and ls s tr
  defines "res \<equiv> crawl_lists api ls s tr"
  defines "bp \<equiv> busy_pass res"
  defines "E \<equiv> drop (length tr) (trace bp)"
    and "L \<equiv> drop (length (trace bp)) (trace (sweep res))"
  shows "trace bp = tr @ E"
    and "honours api {} E"
    and "final_downloaded res = succeeded api E"
    and "trace (sweep res) = trace bp @ L"
    and "entries L = busy_list bp @ final_retry res"
    and "waited L = (if busy_list bp = [] then [] else map int [1..<61])"
    and "(b, oc) \<in> set (calls L) \<Longrightarrow> package_name api b \<notin> succeeded api E"
    and "set (final_retry res) \<subseteq> set (with_outcome (queues True) (drop (length tr) (trace (last_pass res))))"
proof -
  define c where "c = after_listings res"
  note parts = crawl_lists_parts [where api = api and ls = ls and s = s and tr = tr,
      folded res_def, folded c_def bp_def]
  \<comment> \<open>the loop over the listings\<close>
  from listing_loop_frame [of api
      "\<lparr>retry = [], busy = [], c_downloaded = {}, c_world = s, c_trace = tr\<rparr>" ls]
  obtain El where El: "c_trace c = tr @ El" "retry c = with_outcome (queues True) El"
    "c_downloaded c = succeeded api El" "honours api {} El"
    unfolding parts(1) [symmetric] by auto
  \<comment> \<open>the pass over \<open>busy\<close>\<close>
  define Eb where "Eb = emitted (c_trace c @ [Log StartedBusy]) bp"
  note fb = priv_download_frame [where api = api and xs = "busy c" and d = "c_downloaded c"
      and r = True and s = "c_world c" and tr = "c_trace c @ [Log StartedBusy]",
      folded parts(2), folded Eb_def]
  have tb: "trace bp = tr @ El @ Log StartedBusy # Eb"
    using fb(1) El(1) by simp
  then have E: "E = El @ Log StartedBusy # Eb"
    by (simp add: E_def)
  show 1: "trace bp = tr @ E"
    using tb E by simp
  show 2: "honours api {} E"
    using El(4) fb(7) El(3) by (simp add: E honours_append)
  have d1: "downloaded bp \<union> local_success bp = succeeded api E"
    using fb(2,6) El(3) by (simp add: E)
  show 3: "final_downloaded res = succeeded api E"
    using d1 parts(5) by simp
  have rE: "with_outcome (queues True) E = retry c @ retry_list bp"
    using El(2) fb(5) by (simp add: E)
  \<comment> \<open>the final call\<close>
  define trs where "trs = (case twice_pass res of
                None \<Rightarrow>
                  trace bp @
                    [Log (FinishedBusy (length (busy c)) (card (local_success bp))
                            (length (retry_list bp)) (length (busy_list bp)))]
              | Some t \<Rightarrow>
                  trace t @
                    [Log (FinishedTwice (length (busy_list bp)) (card (local_success t))
                            (length (retry_list t)) (length (busy_list t)))])"
  have sw: "sweep res = priv_download api (final_retry res) (final_downloaded res) False
      (world (last_pass res)) trs"
    using parts(6) by (simp add: trs_def)
  define Es where "Es = emitted trs (sweep res)"
  note fs = priv_download_frame [where api = api and xs = "final_retry res"
      and d = "final_downloaded res" and r = False and s = "world (last_pass res)" and tr = trs,
      folded sw, folded Es_def]
  have ws: "waited Es = []"
    using driver_waited [of trs api "final_retry res" "final_downloaded res" False
        "world (last_pass res)"]
    by (simp add: Es_def sw)
  have all: "trace (sweep res) = trace bp @ L \<and>
      entries L = busy_list bp @ final_retry res \<and>
      waited L = (if busy_list bp = [] then [] else map int [1..<61]) \<and>
      (\<forall>b oc. (b, oc) \<in> set (calls L) \<longrightarrow> package_name api b \<notin> succeeded api E) \<and>
      set (final_retry res) \<subseteq>
        set (with_outcome (queues True) (drop (length tr) (trace (last_pass res))))"
  proof (cases "busy_list bp = []")
    case True
    then have tp: "twice_pass res = None" using parts(3) by simp
    then have lp: "last_pass res = bp" by (simp add: last_pass_def bp_def)
    let ?fin = "Log (FinishedBusy (length (busy c)) (card (local_success bp))
                          (length (retry_list bp)) (length (busy_list bp)))"
    have ts: "trace (sweep res) = trace bp @ ?fin # Es"
      using fs(1) tp by (simp add: trs_def)
    then have L: "L = ?fin # Es" by (simp add: L_def)
    have r1: "trace (sweep res) = trace bp @ L" using ts L by simp
    have r2: "entries L = busy_list bp @ final_retry res"
      using fs(3) True by (simp add: L)
    have r3: "waited L = (if busy_list bp = [] then [] else map int [1..<61])"
      using ws True by (simp add: L)
    have r4: "package_name api b \<notin> succeeded api E" if "(b, oc) \<in> set (calls L)" for b oc
      using honours_calls [OF fs(7), of b oc] that by (simp add: L 3)
    have r5: "set (final_retry res) \<subseteq>
           set (with_outcome (queues True) (drop (length tr) (trace (last_pass res))))"
      using parts(4) rE 1 by (simp add: lp)
    from r1 r2 r3 r4 r5 show ?thesis by blast
  next
    case False
    define trt where "trt = trace bp @
                  [Log (FinishedBusy (length (busy c)) (card (local_success bp))
                          (length (retry_list bp)) (length (busy_list bp))),
                   Log (StillBusy (length (busy_list bp)))] @ cooldown 60 @
                  [Log StartedTwice]"
    define t where "t = priv_download api (busy_list bp) (downloaded bp \<union> local_success bp)
        True (world bp) trt"
    have tp: "twice_pass res = Some t" using parts(3) False by (simp add: t_def trt_def)
    then have lp: "last_pass res = t" by (simp add: last_pass_def)
    define Et where "Et = emitted trt t"
    note ft = priv_download_frame [where api = api and xs = "busy_list bp"
        and d = "downloaded bp \<union> local_success bp" and r = True and s = "world bp"
        and tr = trt, folded t_def, folded Et_def]
    have wt: "waited Et = []"
      using driver_waited [of trt api "busy_list bp" "downloaded bp \<union> local_success bp" True
          "world bp"]
      by (simp add: Et_def t_def)
    let ?fb = "Log (FinishedBusy (length (busy c)) (card (local_success bp))
                          (length (retry_list bp)) (length (busy_list bp)))"
    let ?fin = "Log (FinishedTwice (length (busy_list bp)) (card (local_success t))
                          (length (retry_list t)) (length (busy_list t)))"
    let ?L = "[?fb, Log (StillBusy (length (busy_list bp)))] @ cooldown 60 @
                [Log StartedTwice] @ Et @ ?fin # Es"
    have tt: "trace t = trace bp @ [?fb, Log (StillBusy (length (busy_list bp)))] @
        cooldown 60 @ [Log StartedTwice] @ Et"
      using ft(1) by (simp add: trt_def)
    have ts: "trace (sweep res) = trace bp @ ?L"
      using fs(1) tp tt by (simp add: trs_def)
    then have L: "L = ?L" by (simp add: L_def)
    have r1: "trace (sweep res) = trace bp @ L" using ts L by simp
    have r2: "entries L = busy_list bp @ final_retry res"
      using fs(3) ft(3) by (simp add: L)
    have r3: "waited L = (if busy_list bp = [] then [] else map int [1..<61])"
      using ws wt False by (simp add: L)
    have r4: "package_name api b \<notin> succeeded api E" if "(b, oc) \<in> set (calls L)" for b oc
    proof -
      from that have "(b, oc) \<in> set (calls Et) \<or> (b, oc) \<in> set (calls Es)"
        by (simp add: L)
      then show ?thesis
        using honours_calls [OF fs(7), of b oc] honours_calls [OF ft(7), of b oc] d1 3
        by auto
    qed
    have "drop (length tr) (trace t) = E @ [?fb, Log (StillBusy (length (busy_list bp)))] @
        cooldown 60 @ [Log StartedTwice] @ Et"
      using tt 1 by simp
    then have "with_outcome (queues True) (drop (length tr) (trace t)) =
        retry c @ retry_list bp @ retry_list t"
      using rE ft(5) by (simp add: no_calls_with_outcome)
    then have r5: "set (final_retry res) \<subseteq>
           set (with_outcome (queues True) (drop (length tr) (trace (last_pass res))))"
      using parts(4) by (auto simp: lp)
    from r1 r2 r3 r4 r5 show ?thesis by blast
  qed
  from all show "trace (sweep res) = trace bp @ L"
    and "entries L = busy_list bp @ final_retry res"
    and "waited L = (if busy_list bp = [] then [] else map int [1..<61])"
    and "(b, oc) \<in> set (calls L) \<Longrightarrow> package_name api b \<notin> succeeded api E"
    and "set (final_retry res) \<subseteq>
           set (with_outcome (queues True) (drop (length tr) (trace (last_pass res))))"
    by blast+
qed

section \<open>Whole runs\<close>

lemma crawl_one_list:
  "crawl one_list s =
     Some (crawl_lists one_list [(''a'', [''p1'', ''p2''], [])] s
       [Log (Crawling ''stub''), Log (Found 1 1), More False, Log (Yielded ''a'' 2),
        Log (Discovered 2 1 1 2)])"
  by (simp add: crawl_def discover_one_list) (simp add: one_list_def)

lemma crawl_two_lists:
  "crawl two_lists s =
     Some (crawl_lists two_lists [(''a'', [''p''], []), (''b'', [''p''], [])] s
       [Log (Crawling ''stub''), Log (Found 2 2), More False, Log (Yielded ''a'' 1),
        More False, Log (Yielded ''b'' 1), Log (Discovered 2 2 2 1)])"
  by (simp add: crawl_def discover_two_lists) (simp add: two_lists_def)

lemmas run_defs = crawl_lists_def listing_pass_def priv_download_def dl_init_def
  download_step_def Let_def



lemma crawl_Some:
  assumes "crawl api s = Some res"
  obtains ls s1 tr1 where "res = crawl_lists api ls s1 tr1" and "entries tr1 = []"
proof -
  from assms obtain ls s1 tr1 where
    d: "priv_discover_apps api s [Log (Crawling (store api))] = Some (ls, s1, tr1)"
    and r: "res = crawl_lists api ls s1 tr1"
    by (auto simp: crawl_def split: option.splits)
  from priv_discover_apps_trace [OF d] have "entries tr1 = []" by auto
  with r that show ?thesis by blast
qed

subsection \<open>A name that was downloaded is not downloaded again\<close>

text \<open>
  Claim C3, as amended. A download that failed is tried again in a later pass, so
  \<^verbatim>\<open>api.download\<close> can be called more than once for one name; what the passes keep is
  this. In every run, once a download of an entry has succeeded during the loop over
  the listings or during the pass over \<^verbatim>\<open>busy\<close>, \<^verbatim>\<open>api.download\<close> is not called
  again in that run for any entry of the same package name, however many listings hold
  it. (Nothing is said here of a download that succeeds in the pass after the
  cooldown.)
\<close>

theorem succeeded_never_downloaded_again:
  assumes run: "crawl api s = Some res"
    and at: "trace (sweep res) = pre @ Download a Success # post"
    and early: "length pre < length (trace (busy_pass res))"
  shows "package_name api a \<notin> (\<lambda>(b, oc). package_name api b) ` set (calls post)"
proof -
  from run obtain ls s1 tr1 where res: "res = crawl_lists api ls s1 tr1"
    and quiet: "entries tr1 = []"
    by (rule crawl_Some)
  define T where "T = trace (busy_pass res)"
  define E where "E = drop (length tr1) T"
  define L where "L = drop (length T) (trace (sweep res))"
  note f = crawl_lists_frame [where api = api and ls = ls and s = s1 and tr = tr1,
      folded res, folded T_def, folded E_def, folded L_def]
  have hT: "honours api {} T"
    using f(2) no_entries_honours [OF quiet, of api "{}"]
      no_calls_succeeded [OF no_entries_calls [OF quiet], of api]
    by (simp add: f(1) honours_append)
  have sT: "succeeded api T = succeeded api E"
    using no_calls_succeeded [OF no_entries_calls [OF quiet], of api] by (simp add: f(1))
  have "take (length T) (pre @ Download a Success # post) = T"
    using f(4) at by simp
  with early have T: "T = pre @ Download a Success # take (length T - Suc (length pre)) post"
    by (simp add: T_def [symmetric] take_Cons')
  define post1 where "post1 = take (length T - Suc (length pre)) post"
  have T1: "T = pre @ Download a Success # post1"
    using T by (simp add: post1_def)
  have "pre @ Download a Success # post = (pre @ Download a Success # post1) @ L"
    using f(4) at T1 by simp
  then have post: "post = post1 @ L" by simp
  from hT have "honours api (insert (package_name api a) (succeeded api pre)) post1"
    by (simp add: T1 honours_append)
  then have 1: "package_name api b \<noteq> package_name api a" if "(b, oc) \<in> set (calls post1)" for b oc
    using honours_calls that by fastforce
  have "package_name api a \<in> succeeded api E"
    unfolding sT [symmetric] by (simp add: T1)
  with f(7) have 2: "package_name api b \<noteq> package_name api a" if "(b, oc) \<in> set (calls L)" for b oc
    using that by metis
  show ?thesis
  proof
    assume "package_name api a \<in> (\<lambda>(b, oc). package_name api b) ` set (calls post)"
    then obtain b oc where in_post: "(b, oc) \<in> set (calls post)"
      and same: "package_name api b = package_name api a"
      by force
    from in_post have "(b, oc) \<in> set (calls post1) \<or> (b, oc) \<in> set (calls L)"
      by (simp add: post)
    with 1 2 same show False by blast
  qed
qed

theorem succeeded_never_downloaded_again_witness:
  "crawl two_lists [] =
     Some (crawl_lists two_lists [(''a'', [''p''], []), (''b'', [''p''], [])] []
       [Log (Crawling ''stub''), Log (Found 2 2), More False, Log (Yielded ''a'' 1),
        More False, Log (Yielded ''b'' 1), Log (Discovered 2 2 2 1)]) \<and>
   trace (sweep (crawl_lists two_lists [(''a'', [''p''], []), (''b'', [''p''], [])] []
       [Log (Crawling ''stub''), Log (Found 2 2), More False, Log (Yielded ''a'' 1),
        More False, Log (Yielded ''b'' 1), Log (Discovered 2 2 2 1)])) =
     [Log (Crawling ''stub''), Log (Found 2 2), More False, Log (Yielded ''a'' 1),
      More False, Log (Yielded ''b'' 1), Log (Discovered 2 2 2 1), Log (StartedList ''a'')] @
     Download ''p'' Success #
     [Log (FinishedList ''a'' 1 1 0 0), Log (StartedList ''b''), Skipped ''p'',
      Log (FinishedList ''b'' 1 0 0 0), Log StartedBusy, Log (FinishedBusy 0 0 0 0)] \<and>
   package_name two_lists ''p'' \<notin>
     (\<lambda>(b, oc). package_name two_lists b) `
       set (calls [Log (FinishedList ''a'' 1 1 0 0), Log (StartedList ''b''), Skipped ''p'',
                   Log (FinishedList ''b'' 1 0 0 0), Log StartedBusy,
                   Log (FinishedBusy 0 0 0 0)])"
proof -
  let ?res = "crawl_lists two_lists [(''a'', [''p''], []), (''b'', [''p''], [])] []
       [Log (Crawling ''stub''), Log (Found 2 2), More False, Log (Yielded ''a'' 1),
        More False, Log (Yielded ''b'' 1), Log (Discovered 2 2 2 1)]"
  let ?pre = "[Log (Crawling ''stub''), Log (Found 2 2), More False, Log (Yielded ''a'' 1),
      More False, Log (Yielded ''b'' 1), Log (Discovered 2 2 2 1), Log (StartedList ''a'')]"
  let ?post = "[Log (FinishedList ''a'' 1 1 0 0), Log (StartedList ''b''), Skipped ''p'',
      Log (FinishedList ''b'' 1 0 0 0), Log StartedBusy, Log (FinishedBusy 0 0 0 0)]"
  have run: "crawl two_lists [] = Some ?res"
    by (rule crawl_two_lists)
  have at: "trace (sweep ?res) = ?pre @ Download ''p'' Success # ?post"
    by (simp add: two_lists_def run_defs)
  have early: "length ?pre < length (trace (busy_pass ?res))"
    by (simp add: two_lists_def run_defs)
  from succeeded_never_downloaded_again [OF run at early] run at show ?thesis
    by simp
qed

text \<open>
  Claim C3 as stated fails. The package \<open>p\<close> is in two listings; the server is busy at
  its first download, and the download of its second listing succeeds: two calls for
  one name in one run.
\<close>

theorem busy_entry_downloaded_twice:
  "run_calls two_lists [Wait] = Some [(''p'', Wait), (''p'', Success)] \<and>
   times_downloaded two_lists ''p'' [(''p'', Wait), (''p'', Success)] = 2"
  by (simp only: run_calls_def crawl_two_lists option.map)
    (simp add: two_lists_def run_defs times_downloaded_def)

subsection \<open>The cooldown and the second attempt\<close>

text \<open>
  Claim C7, as amended. In every run the cooldown, sixty sleeps of 60 each followed by
  its progress line, is performed if and only if the \<open>busy_list\<close> returned by the pass
  over \<^verbatim>\<open>busy\<close> is not empty; the driver is then run once more over that \<open>busy_list\<close>
  with \<^verbatim>\<open>retry=True\<close>, and after it only the final call follows, which goes through the
  retry backlog. The \<open>busy_list\<close> of the second attempt is not put on the backlog:
  every entry of the backlog had a download that raised \<^verbatim>\<open>Retry\<close> or
  \<^verbatim>\<open>RequestError\<close> before the final call. So an entry that is still busy after the
  second attempt is tried again only if such an outcome had queued it.
\<close>

theorem cooldown_and_second_attempt:
  assumes run: "crawl api s = Some res"
  shows
   "twice_pass res =
      (if busy_list (busy_pass res) = [] then None
       else Some (priv_download api (busy_list (busy_pass res)) (final_downloaded res) True
              (world (busy_pass res))
              (trace (busy_pass res) @
               [Log (FinishedBusy (length (busy (after_listings res)))
                       (card (local_success (busy_pass res)))
                       (length (retry_list (busy_pass res)))
                       (length (busy_list (busy_pass res)))),
                Log (StillBusy (length (busy_list (busy_pass res))))] @ cooldown 60 @
               [Log StartedTwice]))) \<and>
    cooldown 60 = concat (map (\<lambda>k. [Sleep 60, Log (Waited (int k))]) [1..<61]) \<and>
    trace (sweep res) =
      trace (busy_pass res) @ drop (length (trace (busy_pass res))) (trace (sweep res)) \<and>
    waited (drop (length (trace (busy_pass res))) (trace (sweep res))) =
      (if busy_list (busy_pass res) = [] then [] else map int [1..<61]) \<and>
    entries (drop (length (trace (busy_pass res))) (trace (sweep res))) =
      busy_list (busy_pass res) @ final_retry res \<and>
    set (final_retry res) \<subseteq> set (with_outcome (queues True) (trace (last_pass res)))"
proof -
  from run obtain ls s1 tr1 where res: "res = crawl_lists api ls s1 tr1"
    by (rule crawl_Some)
  note p = crawl_lists_parts [where api = api and ls = ls and s = s1 and tr = tr1, folded res]
  note f = crawl_lists_frame [where api = api and ls = ls and s = s1 and tr = tr1, folded res]
  have 1: "twice_pass res =
      (if busy_list (busy_pass res) = [] then None
       else Some (priv_download api (busy_list (busy_pass res)) (final_downloaded res) True
              (world (busy_pass res))
              (trace (busy_pass res) @
               [Log (FinishedBusy (length (busy (after_listings res)))
                       (card (local_success (busy_pass res)))
                       (length (retry_list (busy_pass res)))
                       (length (busy_list (busy_pass res)))),
                Log (StillBusy (length (busy_list (busy_pass res))))] @ cooldown 60 @
               [Log StartedTwice])))"
    using p(3) by (simp only: p(5))
  have 2: "cooldown 60 = concat (map (\<lambda>k. [Sleep 60, Log (Waited (int k))]) [1..<61])"
    using cooldown_eq [of 60] by simp
  have "with_outcome (queues True) (trace (last_pass res)) =
      with_outcome (queues True) (take (length tr1) (trace (last_pass res))) @
      with_outcome (queues True) (drop (length tr1) (trace (last_pass res)))"
    using with_outcome_simps(2) [of "queues True" "take (length tr1) (trace (last_pass res))"
        "drop (length tr1) (trace (last_pass res))"]
    by simp
  with f(8) have 6:
    "set (final_retry res) \<subseteq> set (with_outcome (queues True) (trace (last_pass res)))"
    by auto
  from 1 2 f(4) f(6) f(5) 6 show ?thesis by blast
qed

theorem cooldown_and_second_attempt_witness:
  "crawl two_lists [Retry, Wait, Wait, Wait, Success] =
     Some (crawl_lists two_lists [(''a'', [''p''], []), (''b'', [''p''], [])]
       [Retry, Wait, Wait, Wait, Success]
       [Log (Crawling ''stub''), Log (Found 2 2), More False, Log (Yielded ''a'' 1),
        More False, Log (Yielded ''b'' 1), Log (Discovered 2 2 2 1)]) \<and>
   busy_list (busy_pass (crawl_lists two_lists [(''a'', [''p''], []), (''b'', [''p''], [])]
       [Retry, Wait, Wait, Wait, Success]
       [Log (Crawling ''stub''), Log (Found 2 2), More False, Log (Yielded ''a'' 1),
        More False, Log (Yielded ''b'' 1), Log (Discovered 2 2 2 1)])) = [''p''] \<and>
   waited (drop (length (trace (busy_pass (crawl_lists two_lists
       [(''a'', [''p''], []), (''b'', [''p''], [])] [Retry, Wait, Wait, Wait, Success]
       [Log (Crawling ''stub''), Log (Found 2 2), More False, Log (Yielded ''a'' 1),
        More False, Log (Yielded ''b'' 1), Log (Discovered 2 2 2 1)]))))
     (trace (sweep (crawl_lists two_lists
       [(''a'', [''p''], []), (''b'', [''p''], [])] [Retry, Wait, Wait, Wait, Success]
       [Log (Crawling ''stub''), Log (Found 2 2), More False, Log (Yielded ''a'' 1),
        More False, Log (Yielded ''b'' 1), Log (Discovered 2 2 2 1)])))) = map int [1..<61] \<and>
   entries (drop (length (trace (busy_pass (crawl_lists two_lists
       [(''a'', [''p''], []), (''b'', [''p''], [])] [Retry, Wait, Wait, Wait, Success]
       [Log (Crawling ''stub''), Log (Found 2 2), More False, Log (Yielded ''a'' 1),
        More False, Log (Yielded ''b'' 1), Log (Discovered 2 2 2 1)]))))
     (trace (sweep (crawl_lists two_lists
       [(''a'', [''p''], []), (''b'', [''p''], [])] [Retry, Wait, Wait, Wait, Success]
       [Log (Crawling ''stub''), Log (Found 2 2), More False, Log (Yielded ''a'' 1),
        More False, Log (Yielded ''b'' 1), Log (Discovered 2 2 2 1)])))) = [''p'', ''p'']"
proof -
  let ?res = "crawl_lists two_lists [(''a'', [''p''], []), (''b'', [''p''], [])]
       [Retry, Wait, Wait, Wait, Success]
       [Log (Crawling ''stub''), Log (Found 2 2), More False, Log (Yielded ''a'' 1),
        More False, Log (Yielded ''b'' 1), Log (Discovered 2 2 2 1)]"
  have run: "crawl two_lists [Retry, Wait, Wait, Wait, Success] = Some ?res"
    by (rule crawl_two_lists)
  have b: "busy_list (busy_pass ?res) = [''p'']"
    by (simp add: two_lists_def run_defs)
  have r: "final_retry ?res = [''p'']"
    by (simp add: two_lists_def run_defs)
  from cooldown_and_second_attempt [OF run]
  have "waited (drop (length (trace (busy_pass ?res))) (trace (sweep ?res))) =
      (if busy_list (busy_pass ?res) = [] then [] else map int [1..<61])"
    and "entries (drop (length (trace (busy_pass ?res))) (trace (sweep ?res))) =
      busy_list (busy_pass ?res) @ final_retry ?res"
    by blast+
  then have "waited (drop (length (trace (busy_pass ?res))) (trace (sweep ?res))) =
      map int [1..<61]"
    and "entries (drop (length (trace (busy_pass ?res))) (trace (sweep ?res))) = [''p'', ''p'']"
    unfolding b r by simp_all
  with run b show ?thesis by blast
qed

text \<open>
  Claim C7 as stated fails in its last part. The package \<open>p\<close> is in two listings: its
  first download raises \<^verbatim>\<open>Retry\<close>, which queues it, and the server is busy at the
  second, at the pass over \<^verbatim>\<open>busy\<close> and again after the cooldown. It is still busy after
  the second attempt, it is on the retry backlog, and the final call downloads it.
\<close>

theorem still_busy_entry_swept:
  "map_option still_busy (crawl two_lists [Retry, Wait, Wait, Wait, Success]) = Some [''p''] \<and>
   map_option final_retry (crawl two_lists [Retry, Wait, Wait, Wait, Success]) = Some [''p''] \<and>
   run_calls two_lists [Retry, Wait, Wait, Wait, Success] =
     Some [(''p'', Retry), (''p'', Wait), (''p'', Wait), (''p'', Wait), (''p'', Success)]"
  by (simp only: run_calls_def crawl_two_lists option.map)
    (simp add: two_lists_def run_defs still_busy_def)

subsection \<open>What the pass after the cooldown loses\<close>

text \<open>
  Claim C1, on the run that breaks it. One listing holds \<open>p1\<close> and \<open>p2\<close>, and the
  server is busy for both. In the pass over \<^verbatim>\<open>busy\<close> the download of \<open>p1\<close> raises
  \<^verbatim>\<open>Retry\<close>, so that \<open>p1\<close> is on that pass's \<open>retry_list\<close>, and the server is busy
  again for \<open>p2\<close>, so that the cooldown follows. The pass after the cooldown assigns its
  own \<open>retry_list\<close> to \<^verbatim>\<open>local_retry\<close>: the backlog handed to the final call is
  empty, and \<open>p1\<close>, a discovered name, was neither downloaded nor tried a last time.
\<close>

theorem retry_list_of_busy_pass_lost:
  "''p1'' \<in> app_set one_list [(''a'', [''p1'', ''p2''], [])] \<and>
   map_option (retry_list \<circ> busy_pass) (crawl one_list [Wait, Wait, Retry, Wait, Success]) =
     Some [''p1''] \<and>
   map_option final_retry (crawl one_list [Wait, Wait, Retry, Wait, Success]) = Some [] \<and>
   run_calls one_list [Wait, Wait, Retry, Wait, Success] =
     Some [(''p1'', Wait), (''p2'', Wait), (''p1'', Retry), (''p2'', Wait), (''p2'', Success)]"
  by (simp only: run_calls_def crawl_one_list option.map)
    (simp add: one_list_def run_defs app_set_def)

text \<open>
  Claim C2, on the run that breaks it. The package \<open>p\<close> is in two listings: its first
  download raises \<^verbatim>\<open>Retry\<close>, the server is busy at the second and at the pass over
  \<^verbatim>\<open>busy\<close>, and the download after the cooldown succeeds. That success is not added to
  \<^verbatim>\<open>downloaded\<close>: the set handed to the final call is empty, and the final call
  downloads \<open>p\<close> a second time. The \<open>retry_list\<close> of the pass is appended to the backlog
  as the claim says.
\<close>

theorem success_after_cooldown_not_merged:
  "map_option twice_success (crawl two_lists [Retry, Wait, Wait, Success]) = Some {''p''} \<and>
   map_option final_downloaded (crawl two_lists [Retry, Wait, Wait, Success]) = Some {} \<and>
   map_option final_retry (crawl two_lists [Retry, Wait, Wait, Success]) = Some [''p''] \<and>
   run_calls two_lists [Retry, Wait, Wait, Success] =
     Some [(''p'', Retry), (''p'', Wait), (''p'', Wait), (''p'', Success), (''p'', Success)]"
  by (simp only: run_calls_def crawl_two_lists option.map)
    (simp add: two_lists_def run_defs twice_success_def)

end
